theory Spec2Isabelle
  imports Complex_Main "HOL-Library.Sublist" "HOL-Library.AList" "HOL-Library.Log_Nat"
begin

section \<open>The image pipeline of \<open>lambda_function.py\<close>\<close>

text \<open>
  The handler of \<open>src/lambda/image-processor/lambda_function.py\<close> reads uploaded objects
  from S3, produces three resized JPEG variants of each and publishes a summary on SNS.
  The embedding keeps what the code computes on: image modes and sizes, object keys,
  the calls made to the S3 and SNS clients, and the exceptions. Pixel data is left out.
  Python's mutable \<open>Image\<close> objects live in an explicit store, because
  \<open>Image.thumbnail\<close> changes its receiver in place and \<open>resize_image\<close> may return
  the very object it was given.
\<close>

subsection \<open>Data\<close>

type_synonym bytes = "nat list"

text \<open>A PIL image, reduced to \<open>image.mode\<close> and \<open>image.size\<close> (width, height).\<close>

record image =
  im_mode :: string
  im_size :: "int \<times> int"

type_synonym ref = nat
type_synonym heap = "image list"

text \<open>
  The exceptions of the collaborators: \<open>get_object\<close> (FetchError), \<open>Image.open\<close>
  (DecodeError), \<open>Image.save\<close> (EncodeError), \<open>put_object\<close> (StoreWriteError),
  \<open>publish\<close> (NotifyError), and the two that \<open>Image.thumbnail\<close> can raise on
  degenerate sizes.
\<close>

datatype error =
    FetchError
  | DecodeError
  | EncodeError
  | StoreWriteError
  | NotifyError
  | ZeroDivisionError
  | ValueError

record s3_object =
  body :: bytes
  content_type :: string
  metadata :: "(string \<times> string) list"

text \<open>The calls made to the two boto3 clients, in the order they are made.\<close>

datatype call =
    GetObject string string
  | PutObject "string option" string s3_object
  | Publish "string option" string string

record world =
  objects :: "string \<times> string \<Rightarrow> s3_object option"
  notifications :: "(string \<times> string \<times> string) list"
  calls :: "call list"
  clock :: nat

text \<open>
  What the module reads from outside: the two environment variables
  (\<open>os.environ.get\<close> yields \<open>None\<close> when one is unset), Pillow's decoder and JPEG
  encoder, the services' refusals, and the rendering of the clock.
\<close>

record env =
  PROCESSED_BUCKET :: "string option"
  SNS_TOPIC_ARN :: "string option"
  image_open :: "bytes \<Rightarrow> image option"
  jpeg_save :: "image \<Rightarrow> bytes option"
  put_denied :: "string \<Rightarrow> string \<Rightarrow> bool"
  publish_denied :: "string \<Rightarrow> string \<Rightarrow> string \<Rightarrow> bool"
  isoformat :: "nat \<Rightarrow> string"

text \<open>One record of \<open>event['Records']\<close>: bucket name and object key.\<close>

record s3_record =
  bucket_name :: string
  object_key :: string

text \<open>The dictionary \<open>{'size': ..., 'key': ...}\<close> stored per variant.\<close>

record variant_info =
  info_size :: "int \<times> int"
  info_key :: string

type_synonym results = "(string \<times> variant_info) list"

record response =
  statusCode :: int
  response_body :: string

subsection \<open>Strings\<close>

definition digit_char :: "nat \<Rightarrow> char" where
  "digit_char d = char_of (48 + d)"

fun str_nat :: "nat \<Rightarrow> string" where
  "str_nat n = (if n < 10 then [digit_char n] else str_nat (n div 10) @ [digit_char (n mod 10)])"

declare str_nat.simps [simp del]

text \<open>Python's \<open>str\<close> on an integer, as the f-strings apply it.\<close>

definition str :: "int \<Rightarrow> string" where
  "str i = (if i < 0 then CHR ''-'' # str_nat (nat (- i)) else str_nat (nat i))"

definition nl :: string where
  "nl = [CHR 0x0A]"

text \<open>\<open>f"{size[0]}x{size[1]}"\<close>\<close>

definition fmt_size :: "int \<times> int \<Rightarrow> string" where
  "fmt_size s = str (fst s) @ ''x'' @ str (snd s)"

subsection \<open>Configuration\<close>

text \<open>The dictionary \<open>SIZES\<close>, in insertion order, which is the order \<open>items()\<close> iterates in.\<close>

definition SIZES :: "(string \<times> (int \<times> int)) list" where
  "SIZES = [(''thumbnail'', (150, 150)), (''mobile'', (480, 480)), (''web'', (1024, 1024))]"

subsection \<open>Python floats\<close>

text \<open>
  A Python \<open>float\<close> is an IEEE binary64 number, and every arithmetic operation on
  floats returns the exact result rounded to the nearest such number, ties going to the
  one with an even significand. Floats are modelled by the rationals they denote, and
  \<open>fl q\<close> is the float an operation with the exact result \<open>q\<close> returns. The exponent is
  not limited: the numbers that \<open>Image.thumbnail\<close> forms from the sizes of images
  (C ints in Pillow) and the boxes of \<open>SIZES\<close> are far from overflow and underflow.
\<close>

text \<open>Rounding to the nearest integer, ties to the even one.\<close>

definition rne :: "rat \<Rightarrow> int" where
  "rne m = (let f = \<lfloor>m\<rfloor>; d = m - of_int f
            in if d < 1 / 2 \<or> (d = 1 / 2 \<and> even f) then f else f + 1)"

text \<open>The exponent of a positive number: \<open>2 ^ e \<le> q < 2 ^ (e + 1)\<close>.\<close>

definition exponent :: "rat \<Rightarrow> int" where
  "exponent q = (let k = bitlen (fst (quotient_of q)) - bitlen (snd (quotient_of q))
                 in if 2 powi k \<le> q then k else k - 1)"

text \<open>Rounding to 53 significant bits.\<close>

definition fl :: "rat \<Rightarrow> rat" where
  "fl q = (if q = 0 then 0
           else let u = 2 powi (exponent \<bar>q\<bar> - 52) in of_int (rne (q / u)) * u)"

subsection \<open>Pillow: \<open>Image.new\<close> and \<open>Image.thumbnail\<close>\<close>

definition Image_new :: "string \<Rightarrow> int \<times> int \<Rightarrow> heap \<Rightarrow> ref \<times> heap" where
  "Image_new m s h = (length h, h @ [\<lparr>im_mode = m, im_size = s\<rparr>])"

text \<open>
  \<open>round_aspect\<close> of \<open>Image.thumbnail\<close>:
  \<open>max(min(math.floor(number), math.ceil(number), key=key), 1)\<close>. Python's \<open>min\<close>
  keeps the first of two arguments with equal keys. The number and the keys are floats.
\<close>

definition round_aspect :: "rat \<Rightarrow> (int \<Rightarrow> rat) \<Rightarrow> int" where
  "round_aspect number key =
     max (if key \<lceil>number\<rceil> < key \<lfloor>number\<rfloor> then \<lceil>number\<rceil> else \<lfloor>number\<rfloor>) 1"

text \<open>
  \<open>preserve_aspect_ratio\<close> of \<open>Image.thumbnail\<close>: \<open>None\<close> when the box already holds
  the image, otherwise the size to resize to. Every \<open>/\<close>, \<open>*\<close> and \<open>-\<close> of the
  Python text is a float operation; an \<open>int\<close> operand is converted first. The divisions
  raise on a zero divisor.
  \<^verbatim>\<open>
  aspect = self.width / self.height
  if x / y >= aspect:
      x = round_aspect(y * aspect, key=lambda n: abs(aspect - n / y))
  else:
      y = round_aspect(x / aspect, key=lambda n: 0 if n == 0 else abs(aspect - x / n))
  \<close>
\<close>

definition preserve_aspect_ratio :: "int \<times> int \<Rightarrow> int \<times> int \<Rightarrow> error + (int \<times> int) option" where
  "preserve_aspect_ratio provided_size self_size =
     (let x = fst provided_size; y = snd provided_size;
          width = fst self_size; height = snd self_size
      in if x \<ge> width \<and> y \<ge> height then Inr None
         else if height = 0 then Inl ZeroDivisionError
         else let aspect = fl (of_int width / of_int height)
              in if y = 0 then Inl ZeroDivisionError
                 else if fl (of_int x / of_int y) \<ge> aspect then
                   Inr (Some (round_aspect (fl (fl (of_int y) * aspect))
                                (\<lambda>n. \<bar>fl (aspect - fl (of_int n / of_int y))\<bar>), y))
                 else if aspect = 0 then Inl ZeroDivisionError
                 else
                   Inr (Some (x, round_aspect (fl (fl (of_int x) / aspect))
                                (\<lambda>n. if n = 0 then 0 else \<bar>fl (aspect - fl (of_int x / of_int n))\<bar>))))"

text \<open>
  \<open>Image.thumbnail(size, resample)\<close>: resizes the receiver in place to the size
  \<open>preserve_aspect_ratio\<close> gives, and leaves it alone when that is \<open>None\<close> or the size it
  already has. \<open>Image.resize\<close> fails on a size with a side below 1: for the modes it
  resizes without reducing first (1 and P, and LA and RGBA after their conversion) the
  core raises \<open>ValueError\<close>; for the other modes the reducing factor
  \<open>(box[2] - box[0]) / size[0] / reducing_gap\<close> divides by a zero side first, and a
  negative side reaches the core.
\<close>

definition thumbnail :: "ref \<Rightarrow> int \<times> int \<Rightarrow> heap \<Rightarrow> (error + unit) \<times> heap" where
  "thumbnail self target h =
     (case preserve_aspect_ratio target (im_size (h ! self)) of
        Inl e \<Rightarrow> (Inl e, h)
      | Inr None \<Rightarrow> (Inr (), h)
      | Inr (Some final_size) \<Rightarrow>
          if im_size (h ! self) \<noteq> final_size then
            (if im_mode (h ! self) \<notin> set [''1'', ''P'', ''LA'', ''RGBA'']
                \<and> (fst final_size = 0 \<or> snd final_size = 0) then (Inl ZeroDivisionError, h)
             else if fst final_size < 1 \<or> snd final_size < 1 then (Inl ValueError, h)
             else (Inr (), h[self := (h ! self)\<lparr>im_size := final_size\<rparr>]))
          else (Inr (), h))"

subsection \<open>\<open>resize_image\<close>\<close>

text \<open>
  For the modes RGBA, LA and P a new white RGB image of the same size is created, the
  image is pasted on it, and the new image is resized and returned. For every other mode
  the image that was passed in is itself resized and returned.
\<close>

definition resize_image :: "ref \<Rightarrow> int \<times> int \<Rightarrow> heap \<Rightarrow> (error + ref) \<times> heap" where
  "resize_image im target_size h =
     (let (im1, h1) =
            (if im_mode (h ! im) \<in> set [''RGBA'', ''LA'', ''P'']
             then Image_new ''RGB'' (im_size (h ! im)) h
             else (im, h))
      in case thumbnail im1 target_size h1 of
           (Inl e, h2) \<Rightarrow> (Inl e, h2)
         | (Inr _, h2) \<Rightarrow> (Inr im1, h2))"

subsection \<open>The service clients and the clock\<close>

definition get_object :: "string \<Rightarrow> string \<Rightarrow> world \<Rightarrow> (error + bytes) \<times> world" where
  "get_object Bucket Key w =
     (let w1 = w\<lparr>calls := calls w @ [GetObject Bucket Key]\<rparr>
      in case objects w (Bucket, Key) of
           None \<Rightarrow> (Inl FetchError, w1)
         | Some obj \<Rightarrow> (Inr (body obj), w1))"

definition put_object :: "env \<Rightarrow> string option \<Rightarrow> string \<Rightarrow> s3_object \<Rightarrow> world \<Rightarrow> (error + unit) \<times> world" where
  "put_object env Bucket Key obj w =
     (let w1 = w\<lparr>calls := calls w @ [PutObject Bucket Key obj]\<rparr>
      in case Bucket of
           None \<Rightarrow> (Inl StoreWriteError, w1)
         | Some b \<Rightarrow>
             if put_denied env b Key then (Inl StoreWriteError, w1)
             else (Inr (), w1\<lparr>objects := (objects w1)((b, Key) \<mapsto> obj)\<rparr>))"

definition publish :: "env \<Rightarrow> string option \<Rightarrow> string \<Rightarrow> string \<Rightarrow> world \<Rightarrow> (error + unit) \<times> world" where
  "publish env TopicArn Subject Message w =
     (let w1 = w\<lparr>calls := calls w @ [Publish TopicArn Subject Message]\<rparr>
      in case TopicArn of
           None \<Rightarrow> (Inl NotifyError, w1)
         | Some t \<Rightarrow>
             if publish_denied env t Subject Message then (Inl NotifyError, w1)
             else (Inr (), w1\<lparr>notifications := notifications w1 @ [(t, Subject, Message)]\<rparr>))"

text \<open>\<open>datetime.utcnow().isoformat()\<close>: reads the clock, which moves on.\<close>

definition utcnow_isoformat :: "env \<Rightarrow> world \<Rightarrow> string \<times> world" where
  "utcnow_isoformat env w = (isoformat env (clock w), w\<lparr>clock := Suc (clock w)\<rparr>)"

subsection \<open>\<open>process_image\<close>\<close>

text \<open>
  The loop \<open>for size_name, dimensions in SIZES.items()\<close>. The variable \<open>image\<close> (here \<open>im\<close>)
  refers to the one object \<open>Image.open\<close> returned, in every iteration. An exception raised in
  the body leaves the loop; the calls made so far stay made.
\<close>

fun process_image_loop ::
  "env \<Rightarrow> string \<Rightarrow> int \<times> int \<Rightarrow> (string \<times> (int \<times> int)) list \<Rightarrow> ref \<Rightarrow> results \<Rightarrow> heap \<Rightarrow> world
     \<Rightarrow> (error + results) \<times> world" where
  "process_image_loop env original_key original_size [] im results h w = (Inr results, w)"
| "process_image_loop env original_key original_size ((size_name, dimensions) # rest) im results h w =
     (case resize_image im dimensions h of
        (Inl e, h1) \<Rightarrow> (Inl e, w)
      | (Inr resized_image, h1) \<Rightarrow>
          (case jpeg_save env (h1 ! resized_image) of
             None \<Rightarrow> (Inl EncodeError, w)
           | Some buffer \<Rightarrow>
               let processed_key = ''processed/'' @ size_name @ ''/'' @ original_key;
                   (now, w1) = utcnow_isoformat env w;
                   obj = \<lparr>body = buffer, content_type = ''image/jpeg'',
                          metadata = [(''original-size'', fmt_size original_size),
                                      (''processed-size'', fmt_size (im_size (h1 ! resized_image))),
                                      (''variant'', size_name),
                                      (''processed-date'', now)]\<rparr>
               in (case put_object env (PROCESSED_BUCKET env) processed_key obj w1 of
                     (Inl e, w2) \<Rightarrow> (Inl e, w2)
                   | (Inr _, w2) \<Rightarrow>
                       process_image_loop env original_key original_size rest im
                         (AList.update size_name
                            \<lparr>info_size = im_size (h1 ! resized_image), info_key = processed_key\<rparr>
                            results)
                         h1 w2)))"

definition process_image :: "env \<Rightarrow> bytes \<Rightarrow> string \<Rightarrow> world \<Rightarrow> (error + results) \<times> world" where
  "process_image env image_content original_key w =
     (case image_open env image_content of
        None \<Rightarrow> (Inl DecodeError, w)
      | Some img \<Rightarrow>
          process_image_loop env original_key (im_size img) SIZES 0 [] [img] w)"

subsection \<open>\<open>send_notification\<close>\<close>

definition variant_line :: "string \<times> variant_info \<Rightarrow> string" where
  "variant_line vi =
     ''  - '' @ fst vi @ '': '' @ str (fst (info_size (snd vi))) @ ''x'' @ str (snd (info_size (snd vi)))
       @ '' -> '' @ info_key (snd vi) @ nl"

text \<open>Whatever \<open>publish\<close> raises is caught and logged; the function returns normally.\<close>

definition send_notification :: "env \<Rightarrow> string \<Rightarrow> results \<Rightarrow> world \<Rightarrow> world" where
  "send_notification env image_key results w =
     (let message = nl @ ''Image Processing Complete!'' @ nl @ nl
                    @ ''Original Image: '' @ image_key @ nl @ ''Processed Variants:'' @ nl;
          message = message @ concat (map variant_line results);
          (now, w1) = utcnow_isoformat env w;
          message = message @ nl @ ''Processed at: '' @ now
      in case publish env (SNS_TOPIC_ARN env) (''Image Processed: '' @ image_key) message w1 of
           (Inl e, w2) \<Rightarrow> w2
         | (Inr _, w2) \<Rightarrow> w2)"

subsection \<open>\<open>lambda_handler\<close>\<close>

text \<open>
  The loop \<open>for record in event['Records']\<close>. The test \<open>'processed/' in key\<close> is
  Python's substring test.
\<close>

fun records_loop :: "env \<Rightarrow> s3_record list \<Rightarrow> world \<Rightarrow> (error + unit) \<times> world" where
  "records_loop env [] w = (Inr (), w)"
| "records_loop env (record # rest) w =
     (let bucket = bucket_name record; key = object_key record
      in if sublist ''processed/'' key then records_loop env rest w
         else case get_object bucket key w of
                (Inl e, w1) \<Rightarrow> (Inl e, w1)
              | (Inr image_content, w1) \<Rightarrow>
                  (case process_image env image_content key w1 of
                     (Inl e, w2) \<Rightarrow> (Inl e, w2)
                   | (Inr results, w2) \<Rightarrow>
                       records_loop env rest (send_notification env key results w2)))"

text \<open>The dictionary the handler returns, with \<open>json.dumps\<close> of the message as body.\<close>

definition ok_response :: response where
  "ok_response = \<lparr>statusCode = 200,
       response_body = CHR 0x22 # ''Image processing completed successfully'' @ [CHR 0x22]\<rparr>"

text \<open>
  The handler returns the fixed response after the loop; an exception is logged and
  raised again, so the caller gets the error and no response.
\<close>

definition lambda_handler :: "env \<Rightarrow> s3_record list \<Rightarrow> world \<Rightarrow> (error + response) \<times> world" where
  "lambda_handler env event w =
     (case records_loop env event w of
        (Inl e, w1) \<Rightarrow> (Inl e, w1)
      | (Inr _, w1) \<Rightarrow> (Inr ok_response, w1))"

subsection \<open>Notions used in the statements\<close>

text \<open>
  The size an image of size \<open>s\<close> has after a \<open>thumbnail\<close> call with the box \<open>box\<close>
  that did not raise.
\<close>

definition thumbnail_size :: "int \<times> int \<Rightarrow> int \<times> int \<Rightarrow> int \<times> int" where
  "thumbnail_size box s = (case preserve_aspect_ratio box s of Inr (Some s') \<Rightarrow> s' | _ \<Rightarrow> s)"

text \<open>The test \<open>image.mode in ('RGBA', 'LA', 'P')\<close> of \<open>resize_image\<close>.\<close>

definition has_alpha_mode :: "image \<Rightarrow> bool" where
  "has_alpha_mode img = (im_mode img \<in> set [''RGBA'', ''LA'', ''P''])"

text \<open>Bucket and key of a \<open>put_object\<close> call.\<close>

fun put_target :: "call \<Rightarrow> (string option \<times> string) option" where
  "put_target (PutObject b k obj) = Some (b, k)"
| "put_target _ = None"

text \<open>
  Two worlds with the same stored objects and the same clock: what the handler's later
  steps can read.
\<close>

definition same_store :: "world \<Rightarrow> world \<Rightarrow> bool" where
  "same_store w1 w2 = (objects w1 = objects w2 \<and> clock w1 = clock w2)"

subsection \<open>Example inputs\<close>

text \<open>
  A healthy environment: a decoder that knows two byte strings (an RGBA image of
  2000\<times>1000 and an RGB image of 300\<times>200), an encoder that accepts everything,
  services that refuse nothing; and a source bucket with three objects, one of which
  is not an image.
\<close>

definition example_env :: env where
  "example_env = \<lparr>PROCESSED_BUCKET = Some ''processed-bucket'', SNS_TOPIC_ARN = Some ''topic'',
     image_open = (\<lambda>b. if b = [137, 80, 78, 71] then Some \<lparr>im_mode = ''RGBA'', im_size = (2000, 1000)\<rparr>
                        else if b = [255, 216, 255] then Some \<lparr>im_mode = ''RGB'', im_size = (300, 200)\<rparr>
                        else None),
     jpeg_save = (\<lambda>i. Some [nat (fst (im_size i)), nat (snd (im_size i))]),
     put_denied = (\<lambda>_ _. False), publish_denied = (\<lambda>_ _ _. False),
     isoformat = (\<lambda>n. str (int n))\<rparr>"

definition example_world :: world where
  "example_world = \<lparr>objects = [(''uploads'', ''vacation.png'') \<mapsto>
                                   \<lparr>body = [137, 80, 78, 71], content_type = ''image/png'', metadata = []\<rparr>,
                                (''uploads'', ''photo.jpg'') \<mapsto>
                                   \<lparr>body = [255, 216, 255], content_type = ''image/jpeg'', metadata = []\<rparr>,
                                (''uploads'', ''notes.txt'') \<mapsto>
                                   \<lparr>body = [104, 105], content_type = ''text/plain'', metadata = []\<rparr>],
     notifications = [], calls = [], clock = 0\<rparr>"

definition vacation_results :: results where
  "vacation_results =
     [(''thumbnail'', \<lparr>info_size = (150, 75), info_key = ''processed/thumbnail/vacation.png''\<rparr>),
      (''mobile'', \<lparr>info_size = (480, 240), info_key = ''processed/mobile/vacation.png''\<rparr>),
      (''web'', \<lparr>info_size = (1024, 512), info_key = ''processed/web/vacation.png''\<rparr>)]"

definition photo_results :: results where
  "photo_results =
     [(''thumbnail'', \<lparr>info_size = (150, 100), info_key = ''processed/thumbnail/photo.jpg''\<rparr>),
      (''mobile'', \<lparr>info_size = (150, 100), info_key = ''processed/mobile/photo.jpg''\<rparr>),
      (''web'', \<lparr>info_size = (150, 100), info_key = ''processed/web/photo.jpg''\<rparr>)]"

definition vacation_record :: s3_record where
  "vacation_record = \<lparr>bucket_name = ''uploads'', object_key = ''vacation.png''\<rparr>"

definition processed_record :: s3_record where
  "processed_record = \<lparr>bucket_name = ''uploads'', object_key = ''processed/thumbnail/vacation.png''\<rparr>"

definition nested_record :: s3_record where
  "nested_record = \<lparr>bucket_name = ''uploads'', object_key = ''photos/processed/pic.png''\<rparr>"

definition missing_record :: s3_record where
  "missing_record = \<lparr>bucket_name = ''uploads'', object_key = ''missing.png''\<rparr>"

definition notes_record :: s3_record where
  "notes_record = \<lparr>bucket_name = ''uploads'', object_key = ''notes.txt''\<rparr>"

section \<open>Properties\<close>

subsection \<open>Rounding to a float\<close>

lemma rne_choice: "rne m = \<lfloor>m\<rfloor> \<or> rne m = \<lfloor>m\<rfloor> + 1"
  by (simp add: rne_def Let_def)

lemma rne_err: "\<bar>of_int (rne m) - m\<bar> \<le> 1 / 2"
proof -
  define f where "f = \<lfloor>m\<rfloor>"
  define d where "d = m - of_int f"
  have d: "0 \<le> d" "d < 1" unfolding d_def f_def by linarith+
  have "rne m = (if d < 1 / 2 \<or> (d = 1 / 2 \<and> even f) then f else f + 1)"
    by (simp add: rne_def Let_def f_def d_def)
  then show ?thesis using d unfolding d_def by (auto split: if_splits)
qed

lemma rne_le_ceiling: "rne m \<le> \<lceil>m\<rceil>"
proof -
  define f where "f = \<lfloor>m\<rfloor>"
  define d where "d = m - of_int f"
  have r: "rne m = (if d < 1 / 2 \<or> (d = 1 / 2 \<and> even f) then f else f + 1)"
    by (simp add: rne_def Let_def f_def d_def)
  have fc: "f \<le> \<lceil>m\<rceil>" unfolding f_def by (rule floor_le_ceiling)
  show ?thesis
  proof (cases "d < 1 / 2 \<or> (d = 1 / 2 \<and> even f)")
    case True
    then show ?thesis using r fc by simp
  next
    case False
    then have "0 < d" by auto
    then have "of_int f < m" by (simp add: d_def)
    then have "f < \<lceil>m\<rceil>" by (simp add: less_ceiling_iff)
    then show ?thesis using r False by simp
  qed
qed

lemma rne_of_int [simp]: "rne (of_int n) = n"
  by (simp add: rne_def)

lemma exponent_bounds:
  assumes "0 < q"
  shows "2 powi exponent q \<le> q" and "q < 2 powi (exponent q + 1)"
proof -
  obtain a b where ab: "quotient_of q = (a, b)" by (cases "quotient_of q")
  have b: "0 < b" using ab by (rule quotient_of_denom_pos)
  have q: "q = of_int a / of_int b" using ab by (rule quotient_of_div)
  have a: "0 < a" using assms b unfolding q by (simp add: zero_less_divide_iff)
  define la where "la = bitlen a"
  define lb where "lb = bitlen b"
  have la1: "1 \<le> la" using a unfolding la_def by (simp add: bitlen_alt_def)
  have lb1: "1 \<le> lb" using b unfolding lb_def by (simp add: bitlen_alt_def)
  from bitlen_bounds[OF a] have "2 ^ nat (la - 1) \<le> a" "a < 2 ^ nat la" unfolding la_def by auto
  then have "(of_int (2 ^ nat (la - 1)) :: rat) \<le> of_int a" "(of_int a :: rat) < of_int (2 ^ nat la)"
    unfolding of_int_le_iff of_int_less_iff by auto
  then have A: "(2::rat) powi (la - 1) \<le> of_int a" "(of_int a :: rat) < 2 powi la"
    using la1 by (simp_all add: power_int_def)
  from bitlen_bounds[OF b] have "2 ^ nat (lb - 1) \<le> b" "b < 2 ^ nat lb" unfolding lb_def by auto
  then have "(of_int (2 ^ nat (lb - 1)) :: rat) \<le> of_int b" "(of_int b :: rat) < of_int (2 ^ nat lb)"
    unfolding of_int_le_iff of_int_less_iff by auto
  then have B: "(2::rat) powi (lb - 1) \<le> of_int b" "(of_int b :: rat) < 2 powi lb"
    using lb1 by (simp_all add: power_int_def)
  define k where "k = la - lb"
  have bq: "(0::rat) < of_int b" using b by simp
  have p0: "(0::rat) < 2 powi i" for i by simp
  have up: "q < 2 powi (k + 1)"
  proof -
    have "of_int a < (2::rat) powi (k + 1) * 2 powi (lb - 1)"
      using A(2) by (simp add: k_def flip: power_int_add)
    also have "\<dots> \<le> 2 powi (k + 1) * of_int b"
      using B(1) by (intro mult_left_mono) simp_all
    finally show ?thesis unfolding q using bq by (simp add: pos_divide_less_eq)
  qed
  have lo: "2 powi (k - 1) \<le> q"
  proof -
    have "(2::rat) powi (k - 1) * of_int b \<le> 2 powi (k - 1) * 2 powi lb"
      using B(2) by (intro mult_left_mono) simp_all
    also have "\<dots> = 2 powi (la - 1)" by (simp add: k_def flip: power_int_add)
    also have "\<dots> \<le> of_int a" by (rule A(1))
    finally show ?thesis unfolding q using bq by (simp add: pos_le_divide_eq)
  qed
  have e: "exponent q = (if 2 powi k \<le> q then k else k - 1)"
    by (simp add: exponent_def Let_def ab k_def la_def lb_def)
  show "2 powi exponent q \<le> q" using lo by (simp add: e)
  show "q < 2 powi (exponent q + 1)" using up by (auto simp: e)
qed

lemma fl_0 [simp]: "fl 0 = 0"
  by (simp add: fl_def)

lemma fl_err: "\<bar>fl q - q\<bar> \<le> \<bar>q\<bar> / 2 ^ 53"
proof (cases "q = 0")
  case True
  then show ?thesis by simp
next
  case False
  define e where "e = exponent \<bar>q\<bar>"
  define u :: rat where "u = 2 powi (e - 52)"
  have u0: "0 < u" by (simp add: u_def)
  have f: "fl q = of_int (rne (q / u)) * u"
    using False by (simp add: fl_def Let_def u_def e_def)
  have "fl q - q = (of_int (rne (q / u)) - q / u) * u"
    using u0 by (simp add: f algebra_simps)
  then have "\<bar>fl q - q\<bar> = \<bar>of_int (rne (q / u)) - q / u\<bar> * u"
    using u0 by (simp add: abs_mult)
  also have "\<dots> \<le> 1 / 2 * u"
    using u0 rne_err[of "q / u"] by (intro mult_right_mono) simp_all
  finally have 1: "\<bar>fl q - q\<bar> \<le> u / 2" by simp
  have "2 powi e \<le> \<bar>q\<bar>" unfolding e_def using False by (intro exponent_bounds) simp
  moreover have "(2::rat) powi e = u * 2 ^ 52"
    by (simp add: u_def power_int_diff)
  ultimately have "u * 2 ^ 52 \<le> \<bar>q\<bar>" by simp
  then have "u / 2 \<le> \<bar>q\<bar> / 2 ^ 53" by simp
  then show ?thesis using 1 by linarith
qed

lemma fl_pos:
  assumes "0 < q" shows "0 < fl q"
proof -
  have "\<bar>q\<bar> = q" using assms by simp
  then have "\<bar>fl q - q\<bar> \<le> q / 2 ^ 53" using fl_err[of q] by (simp only:)
  moreover have "q / 2 ^ 53 < q" using assms by simp
  ultimately show ?thesis by linarith
qed

lemma fl_nonpos: 
  assumes "q \<le> 0" shows "fl q \<le> 0"
proof (cases "q = 0")
  case True then show ?thesis by simp
next
  case False
  define u :: rat where "u = 2 powi (exponent \<bar>q\<bar> - 52)"
  have u0: "0 < u" by (simp add: u_def)
  have f: "fl q = of_int (rne (q / u)) * u"
    using False by (simp add: fl_def Let_def u_def)
  have "q / u \<le> of_int 0" using assms u0 by (simp add: divide_le_0_iff)
  then have "\<lceil>q / u\<rceil> \<le> 0" by (simp only: ceiling_le_iff)
  then have "rne (q / u) \<le> 0" using rne_le_ceiling[of "q / u"] by linarith
  then have "(of_int (rne (q / u)) :: rat) \<le> 0" by simp
  then show ?thesis unfolding f using u0 by (simp add: mult_le_0_iff)
qed

lemma fl_zero_iff: "fl q = 0 \<longleftrightarrow> q = 0"
proof
  assume z: "fl q = 0"
  show "q = 0"
  proof (rule ccontr)
    assume "q \<noteq> 0"
    then have "0 < \<bar>q\<bar>" by simp
    moreover have "\<bar>q\<bar> \<le> \<bar>q\<bar> / 2 ^ 53" using fl_err[of q] z by simp
    ultimately show False by simp
  qed
qed simp

lemma fl_le_int:
  assumes "q \<le> of_int c" "0 < c" "c < 2 ^ 53"
  shows "fl q \<le> of_int c"
proof (cases "0 < q")
  case False
  then have "fl q \<le> 0" by (intro fl_nonpos) simp
  then show ?thesis using assms(2) by (simp add: order_trans[where y = 0])
next
  case True
  define e where "e = exponent \<bar>q\<bar>"
  define u :: rat where "u = 2 powi (e - 52)"
  have u0: "0 < u" by (simp add: u_def)
  have f: "fl q = of_int (rne (q / u)) * u"
    using True by (simp add: fl_def Let_def u_def e_def)
  have "2 powi e \<le> q" unfolding e_def using True exponent_bounds(1)[of "\<bar>q\<bar>"] by simp
  also have "q \<le> of_int c" by (rule assms(1))
  also have "(of_int c :: rat) < 2 ^ 53" using assms(3) by (metis of_int_less_iff of_int_numeral of_int_power)
  finally have "(2::rat) powi e < 2 powi 53" by simp
  then have "e < 53" by (intro power_int_le_imp_less_exp[of "2::rat"]) simp_all
  then have e52: "e \<le> 52" by simp
  define j where "j = nat (52 - e)"
  have uj: "u = 1 / 2 ^ j" using e52 by (simp add: u_def j_def power_int_def field_simps)
  have "q / u \<le> of_int c / u" using assms(1) u0 by (simp add: divide_right_mono)
  also have "of_int c / u = of_int (c * 2 ^ j)" by (simp add: uj)
  finally have "\<lceil>q / u\<rceil> \<le> c * 2 ^ j" by (simp only: ceiling_le_iff)
  then have "rne (q / u) \<le> c * 2 ^ j" using rne_le_ceiling[of "q / u"] by linarith
  then have "(of_int (rne (q / u)) :: rat) \<le> of_int (c * 2 ^ j)" by (simp only: of_int_le_iff)
  then have "of_int (rne (q / u)) * u \<le> of_int (c * 2 ^ j) * u" using u0 by (intro mult_right_mono) simp_all
  also have "of_int (c * 2 ^ j) * u = of_int c" by (simp add: uj)
  finally show ?thesis unfolding f .
qed

lemma fl_of_int:
  assumes "0 < c" "c < 2 ^ 53"
  shows "fl (of_int c) = of_int c"
proof -
  define q :: rat where "q = of_int c"
  have q0: "0 < q" using assms(1) by (simp add: q_def)
  define e where "e = exponent \<bar>q\<bar>"
  define u :: rat where "u = 2 powi (e - 52)"
  have f: "fl q = of_int (rne (q / u)) * u"
    using q0 by (simp add: fl_def Let_def u_def e_def)
  have "2 powi e \<le> q" unfolding e_def using q0 exponent_bounds(1)[of "\<bar>q\<bar>"] by simp
  also have "q < 2 ^ 53" unfolding q_def using assms(2) by (metis of_int_less_iff of_int_numeral of_int_power)
  finally have "(2::rat) powi e < 2 powi 53" by simp
  then have "e < 53" by (intro power_int_le_imp_less_exp[of "2::rat"]) simp_all
  then have e52: "e \<le> 52" by simp
  define j where "j = nat (52 - e)"
  have uj: "u = 1 / 2 ^ j" using e52 by (simp add: u_def j_def power_int_def field_simps)
  have "q / u = of_int (c * 2 ^ j)" by (simp add: uj q_def)
  then have "rne (q / u) = c * 2 ^ j" by (simp only: rne_of_int)
  then show ?thesis unfolding q_def[symmetric] f by (simp add: uj q_def)
qed

lemma fl_err_pos:
  assumes "0 < q"
  shows "q - q / 2 ^ 53 \<le> fl q" and "fl q \<le> q + q / 2 ^ 53"
proof -
  have "\<bar>q\<bar> = q" using assms by simp
  then have "\<bar>fl q - q\<bar> \<le> q / 2 ^ 53" using fl_err[of q] by (simp only:)
  then show "q - q / 2 ^ 53 \<le> fl q" and "fl q \<le> q + q / 2 ^ 53" by linarith+
qed

text \<open>Two positive numbers that are far enough apart round to different floats.\<close>

lemma fl_less:
  assumes "0 \<le> p" and "p + p / 2 ^ 53 < q - q / 2 ^ 53"
  shows "fl p < fl q"
proof -
  have q0: "0 < q"
  proof (rule ccontr)
    assume "\<not> 0 < q"
    then have "q \<le> 0" by simp
    then have "q - q / 2 ^ 53 \<le> 0" by (simp add: field_simps)
    moreover have "0 \<le> p + p / 2 ^ 53" using assms(1) by simp
    ultimately show False using assms(2) by linarith
  qed
  have "fl p \<le> p + p / 2 ^ 53"
  proof (cases "p = 0")
    case True then show ?thesis by simp
  next
    case False
    then have "0 < p" using assms(1) by simp
    then show ?thesis by (rule fl_err_pos(2))
  qed
  moreover have "q - q / 2 ^ 53 \<le> fl q" using q0 by (rule fl_err_pos(1))
  ultimately show ?thesis using assms(2) by linarith
qed

lemma consecutive_gap:
  assumes "1 \<le> n" "n \<le> 4096" "0 < (c::rat)"
  shows "c * of_int (n - 1) + c * of_int (n - 1) / 2 ^ 53 < c * of_int n - c * of_int n / 2 ^ 53"
proof -
  define x :: rat where "x = of_int n"
  have x: "1 \<le> x" "x \<le> 4096" using assms(1,2) unfolding x_def by simp_all
  define \<epsilon> :: rat where "\<epsilon> = 1 / 2 ^ 53"
  have e: "0 < \<epsilon>" "\<epsilon> < 1 / 8192" by (simp_all add: \<epsilon>_def)
  have t: "x * \<epsilon> \<le> 4096 * \<epsilon>" using x(2) e(1) by (intro mult_right_mono) simp_all
  have d: "(x - 1) / 2 ^ 53 = x * \<epsilon> - \<epsilon>" "x / 2 ^ 53 = x * \<epsilon>"
    unfolding \<epsilon>_def by (simp_all add: field_simps)
  have "(x - 1) + (x - 1) / 2 ^ 53 < x - x / 2 ^ 53" unfolding d using t e by linarith
  then have "c * ((x - 1) + (x - 1) / 2 ^ 53) < c * (x - x / 2 ^ 53)"
    using assms(3) by (simp only: mult_less_cancel_left_pos)
  then show ?thesis unfolding x_def by (simp add: algebra_simps)
qed

lemma fl_1 [simp]: "fl 1 = 1"
  using fl_of_int[of 1] by simp

lemma err_wide:
  fixes m r0 :: rat
  assumes "0 < r0" "fl r0 \<le> 1" "0 < m"
  shows "\<bar>fl (m * fl r0) - m * r0\<bar> \<le> 3 * m / 2 ^ 53" and "r0 \<le> 2"
proof -
  define \<epsilon> :: rat where "\<epsilon> = 1 / 2 ^ 53"
  have e: "0 < \<epsilon>" "\<epsilon> < 1 / 2" by (simp_all add: \<epsilon>_def)
  have d: "x / 2 ^ 53 = x * \<epsilon>" for x :: rat by (simp add: \<epsilon>_def)
  define a where "a = fl r0"
  have a0: "0 < a" unfolding a_def using assms(1) by (rule fl_pos)
  have a1: "a \<le> 1" using assms(2) by (simp add: a_def)
  have ar: "r0 - r0 * \<epsilon> \<le> a" "a \<le> r0 + r0 * \<epsilon>"
    using fl_err_pos[OF assms(1)] unfolding a_def d by simp_all
  have "r0 * \<epsilon> \<le> r0 * (1 / 2)" using e assms(1) by (intro mult_left_mono) simp_all
  then show r2: "r0 \<le> 2" using ar(1) a1 by linarith
  have ma0: "0 < m * a" using a0 assms(3) by simp
  have v: "m * a - m * a * \<epsilon> \<le> fl (m * a)" "fl (m * a) \<le> m * a + m * a * \<epsilon>"
    using fl_err_pos[OF ma0] unfolding d by simp_all
  have "m * a \<le> m * 1" using a1 assms(3) by (intro mult_left_mono) simp_all
  then have "m * a * \<epsilon> \<le> m * \<epsilon>" using e by (simp add: mult_right_mono)
  moreover have "m * (r0 - r0 * \<epsilon>) \<le> m * a" "m * a \<le> m * (r0 + r0 * \<epsilon>)"
    using ar assms(3) by (simp_all add: mult_left_mono)
  moreover have "m * r0 * \<epsilon> \<le> 2 * m * \<epsilon>"
  proof -
    have "r0 * (m * \<epsilon>) \<le> 2 * (m * \<epsilon>)" using r2 assms(3) e by (intro mult_right_mono) simp_all
    then show ?thesis by (simp add: mult_ac)
  qed
  ultimately have "\<bar>fl (m * a) - m * r0\<bar> \<le> 3 * m * \<epsilon>"
    using v by (simp add: algebra_simps abs_le_iff) 
  then show "\<bar>fl (m * fl r0) - m * r0\<bar> \<le> 3 * m / 2 ^ 53"
    unfolding a_def \<epsilon>_def by simp
qed

lemma err_tall:
  fixes m r0 :: rat
  assumes "0 < r0" "1 < fl r0" "0 < m"
  shows "\<bar>fl (m / fl r0) - m / r0\<bar> \<le> 3 * m / 2 ^ 53" and "1 / 2 \<le> r0"
proof -
  define \<epsilon> :: rat where "\<epsilon> = 1 / 2 ^ 53"
  have e: "0 < \<epsilon>" "\<epsilon> < 1 / 2" by (simp_all add: \<epsilon>_def)
  have d: "x / 2 ^ 53 = x * \<epsilon>" for x :: rat by (simp add: \<epsilon>_def)
  define a where "a = fl r0"
  have a1: "1 < a" using assms(2) by (simp add: a_def)
  have ar: "r0 - r0 * \<epsilon> \<le> a" "a \<le> r0 + r0 * \<epsilon>"
    using fl_err_pos[OF assms(1)] unfolding a_def d by simp_all
  have "r0 * \<epsilon> \<le> r0 * (1 / 2)" using e assms(1) by (intro mult_left_mono) simp_all
  then show r2: "1 / 2 \<le> r0" using ar(2) a1 by linarith
  define w where "w = m / a"
  have w0: "0 < w" using a1 assms(3) by (simp add: w_def)
  have wm: "w \<le> m" using a1 assms(3) by (simp add: w_def field_simps)
  have v: "w - w * \<epsilon> \<le> fl w" "fl w \<le> w + w * \<epsilon>"
    using fl_err_pos[OF w0] unfolding d by simp_all
  have we: "w * \<epsilon> \<le> m * \<epsilon>" using wm e by (simp add: mult_right_mono)
  have "\<bar>w - m / r0\<bar> \<le> m * \<epsilon>"
  proof -
    have "w - m / r0 = m * (r0 - a) / (a * r0)"
      using a1 assms(1) by (simp add: w_def field_simps)
    then have "\<bar>w - m / r0\<bar> = m * \<bar>r0 - a\<bar> / (a * r0)"
      using a1 assms(1,3) by (simp add: abs_mult abs_divide)
    also have "\<dots> \<le> m * (r0 * \<epsilon>) / (a * r0)"
    proof -
      have "\<bar>r0 - a\<bar> \<le> r0 * \<epsilon>" using ar by (simp add: abs_le_iff) 
      then have X: "m * \<bar>r0 - a\<bar> \<le> m * (r0 * \<epsilon>)" using assms(3) by (simp add: mult_left_mono)
      have Y: "0 \<le> a * r0" using a1 assms(1) by simp
      show ?thesis by (rule divide_right_mono[OF X Y])
    qed
    also have "\<dots> = (m * \<epsilon>) / a" using assms(1) by simp
    also have "\<dots> \<le> m * \<epsilon>"
    proof -
      have "0 \<le> m * \<epsilon>" using assms(3) e by simp
      then have "(m * \<epsilon>) / a \<le> (m * \<epsilon>) / 1" using a1 by (intro divide_left_mono) simp_all
      then show ?thesis by simp
    qed
    finally show ?thesis .
  qed
  moreover have "0 \<le> m * \<epsilon>" using assms(3) e by simp
  ultimately have "\<bar>fl w - m / r0\<bar> \<le> 3 * (m * \<epsilon>)"
    using v we by linarith
  then show "\<bar>fl (m / fl r0) - m / r0\<bar> \<le> 3 * m / 2 ^ 53"
    unfolding w_def a_def \<epsilon>_def by simp
qed

subsection \<open>Rounding in \<open>thumbnail\<close>\<close>

lemma round_aspect_ge1: "1 \<le> round_aspect v key"
  by (simp add: round_aspect_def)

lemma round_aspect_choice:
  "round_aspect v key = max \<lceil>v\<rceil> 1 \<or> round_aspect v key = max \<lfloor>v\<rfloor> 1"
  by (simp add: round_aspect_def)

lemma round_aspect_le:
  assumes "v \<le> of_int b" "1 \<le> b"
  shows "round_aspect v key \<le> b"
proof -
  define c where "c = \<lceil>v\<rceil>"
  define f where "f = \<lfloor>v\<rfloor>"
  have "c \<le> b" unfolding c_def f_def using assms(1) by (simp add: ceiling_le)
  moreover have "f \<le> c" unfolding c_def f_def by (rule floor_le_ceiling)
  moreover have "round_aspect v key = max c 1 \<or> round_aspect v key = max f 1"
    unfolding c_def f_def by (rule round_aspect_choice)
  ultimately show ?thesis using assms(2) by linarith
qed

lemma round_aspect_close:
  assumes "0 < v"
  shows "\<bar>of_int (round_aspect v key) - v\<bar> < 1"
proof -
  define c where "c = \<lceil>v\<rceil>"
  define f where "f = \<lfloor>v\<rfloor>"
  have cl: "of_int c - v < 1" "v \<le> of_int c" unfolding c_def f_def by linarith+
  have fl: "v - of_int f < 1" "of_int f \<le> v" unfolding c_def f_def by linarith+
  have c1: "1 \<le> c"
  proof -
    have "(0::rat) < of_int c" using assms cl(2) by linarith
    then show ?thesis by simp
  qed
  have ch: "round_aspect v key = max c 1 \<or> round_aspect v key = max f 1"
    unfolding c_def f_def by (rule round_aspect_choice)
  show ?thesis
  proof (cases "1 \<le> f")
    case True
    then have "round_aspect v key = c \<or> round_aspect v key = f" using ch c1 by linarith
    then show ?thesis using cl fl by auto
  next
    case False
    then have "f \<le> 0" by linarith
    then have "of_int f \<le> (0::rat)" by simp
    then have "v < 1" using fl(1) by linarith
    then have "c \<le> 1" unfolding c_def f_def by (simp add: ceiling_le)
    then have "round_aspect v key = 1" using ch c1 False by linarith
    then show ?thesis using assms \<open>v < 1\<close> by simp
  qed
qed

text \<open>When the number is within one of an integer whose key is zero, that integer is chosen.\<close>

lemma round_aspect_int:
  assumes n: "1 \<le> n" and v: "\<bar>v - of_int n\<bar> < 1"
    and k0: "key n = 0" and kp: "\<And>k. 0 \<le> key k"
    and kn: "2 \<le> n \<Longrightarrow> 0 < key (n - 1)"
  shows "round_aspect v key = n"
proof -
  consider (eq) "v = of_int n" | (lt) "v < of_int n" | (gt) "of_int n < v" by linarith
  then show ?thesis
  proof cases
    case eq
    then show ?thesis using n by (simp add: round_aspect_def)
  next
    case lt
    have "of_int (n - 1) < v" using v lt by simp
    then have f: "\<lfloor>v\<rfloor> = n - 1" using lt by (simp add: floor_unique)
    have c: "\<lceil>v\<rceil> = n"
      using lt \<open>of_int (n - 1) < v\<close> by (intro ceiling_unique) simp_all
    show ?thesis
    proof (cases "2 \<le> n")
      case True
      then show ?thesis using kn k0 n by (simp add: round_aspect_def f c)
    next
      case False
      then have "n = 1" using n by simp
      then show ?thesis using k0 kp[of 0] by (auto simp: round_aspect_def f c)
    qed
  next
    case gt
    have "v < of_int (n + 1)" using v gt by simp
    then have f: "\<lfloor>v\<rfloor> = n" using gt by (simp add: floor_unique)
    have "\<not> key \<lceil>v\<rceil> < key n" using kp[of "\<lceil>v\<rceil>"] k0 by simp
    then show ?thesis using n by (simp add: round_aspect_def f)
  qed
qed

lemma close_core:
  assumes v: "0 < v" and d: "\<bar>v - of_int p / of_int D\<bar> \<le> \<delta>"
    and D: "0 < D" and dD: "\<delta> * of_int D < 1"
    and whole: "\<And>n. of_int p / of_int D = (of_int n :: rat) \<Longrightarrow> round_aspect v key = n"
  shows "\<bar>of_int (round_aspect v key) - of_int p / of_int D\<bar> < (1::rat)"
proof -
  define r where "r = round_aspect v key"
  define e :: rat where "e = of_int p / of_int D"
  have Dq: "(0::rat) < of_int D" using D by simp
  show ?thesis
  proof (cases "\<exists>n. e = of_int n")
    case True
    then obtain n where n: "e = of_int n" by blast
    have "round_aspect v key = n" using n[unfolded e_def] by (rule whole)
    then show ?thesis using n unfolding e_def by simp
  next
    case False
    have rv: "\<bar>of_int r - v\<bar> < 1" unfolding r_def using v by (rule round_aspect_close)
    have "\<bar>of_int r - e\<bar> < 1 + \<delta>" using rv d unfolding e_def by linarith
    then have "\<bar>of_int r - e\<bar> * of_int D < (1 + \<delta>) * of_int D"
      using Dq by (simp add: mult_strict_right_mono)
    moreover have "\<bar>of_int r - e\<bar> * of_int D = \<bar>of_int (r * D - p)\<bar>"
    proof -
      have "(of_int r - e) * of_int D = of_int (r * D - p)"
        using Dq by (simp add: e_def field_simps)
      then have "\<bar>(of_int r - e) * of_int D\<bar> = \<bar>(of_int (r * D - p) :: rat)\<bar>" by simp
      then show ?thesis using Dq by (simp add: abs_mult)
    qed
    moreover have "(1 + \<delta>) * of_int D < of_int D + 1" using dD by (simp add: algebra_simps)
    ultimately have "\<bar>(of_int (r * D - p) :: rat)\<bar> < of_int (D + 1)" by simp
    then have "\<bar>r * D - p\<bar> < D + 1"
      by (metis of_int_abs of_int_less_iff)
    then have le: "\<bar>r * D - p\<bar> \<le> D" by simp
    have ne: "\<bar>r * D - p\<bar> \<noteq> D"
    proof
      assume "\<bar>r * D - p\<bar> = D"
      then consider "p = (r - 1) * D" | "p = (r + 1) * D" by (auto simp: abs_if algebra_simps split: if_splits)
      then have "\<exists>n. e = of_int n"
      proof cases
        case 1
        then have "e = of_int (r - 1)" using Dq by (simp add: e_def)
        then show ?thesis by blast
      next
        case 2
        then have "e = of_int (r + 1)" using Dq by (simp add: e_def)
        then show ?thesis by blast
      qed
      then show False using False by blast
    qed
    have "\<bar>r * D - p\<bar> < D" using le ne by linarith
    then have "\<bar>(of_int (r * D - p) :: rat)\<bar> < of_int D"
      by (metis of_int_abs of_int_less_iff)
    moreover have "\<bar>of_int r - e\<bar> * of_int D = \<bar>of_int (r * D - p)\<bar>"
    proof -
      have "(of_int r - e) * of_int D = of_int (r * D - p)"
        using Dq by (simp add: e_def field_simps)
      then have "\<bar>(of_int r - e) * of_int D\<bar> = \<bar>(of_int (r * D - p) :: rat)\<bar>" by simp
      then show ?thesis using Dq by (simp add: abs_mult)
    qed
    ultimately have "\<bar>of_int r - e\<bar> * of_int D < 1 * of_int D" by simp
    then have "\<bar>of_int r - e\<bar> < 1" using Dq by (simp only: mult_less_cancel_right_pos)
    then show ?thesis unfolding r_def e_def .
  qed
qed

lemma par_square_cases:
  assumes "preserve_aspect_ratio (m, m) (W, H) = Inr (Some (a, b))" "0 < m" "m < 2 ^ 53"
  obtains (A) "fl (of_int W / of_int H) \<le> 1" "b = m"
      "a = round_aspect (fl (of_int m * fl (of_int W / of_int H)))
             (\<lambda>n. \<bar>fl (fl (of_int W / of_int H) - fl (of_int n / of_int m))\<bar>)"
    | (B) "1 < fl (of_int W / of_int H)" "a = m"
      "b = round_aspect (fl (of_int m / fl (of_int W / of_int H)))
             (\<lambda>n. if n = 0 then 0 else \<bar>fl (fl (of_int W / of_int H) - fl (of_int m / of_int n))\<bar>)"
proof -
  have m1: "(of_int m :: rat) / of_int m = 1" using assms(2) by simp
  have fm: "fl (of_int m) = of_int m" using assms(2,3) by (rule fl_of_int)
  show thesis
    using assms(1) A B unfolding preserve_aspect_ratio_def
    by (auto simp: Let_def m1 fm split: if_splits)
qed

lemma par_square_bounds:
  assumes "preserve_aspect_ratio (m, m) (W, H) = Inr (Some (a, b))" "0 < m" "m < 2 ^ 53"
  shows "1 \<le> a \<and> a \<le> m \<and> 1 \<le> b \<and> b \<le> m"
  using assms
proof (cases rule: par_square_cases)
  case A
  define r where "r = fl (of_int W / of_int H)"
  have "of_int m * r \<le> of_int m * 1"
    using A(1) assms(2) unfolding r_def by (intro mult_left_mono) simp_all
  then have "fl (of_int m * r) \<le> of_int m"
    using assms(2,3) by (intro fl_le_int) simp_all
  then have "a \<le> m" unfolding A(3) r_def[symmetric] using assms(2) by (intro round_aspect_le) simp_all
  then show ?thesis using A(2) assms(2) round_aspect_ge1 unfolding A(3) by simp
next
  case B
  define r where "r = fl (of_int W / of_int H)"
  have r1: "1 < r" using B(1) by (simp add: r_def)
  have "of_int m / r \<le> of_int m"
    using r1 assms(2) by (simp add: field_simps)
  then have "fl (of_int m / r) \<le> of_int m"
    using assms(2,3) by (intro fl_le_int) simp_all
  then have "b \<le> m" unfolding B(3) r_def[symmetric] using assms(2) by (intro round_aspect_le) simp_all
  then show ?thesis using B(2) assms(2) round_aspect_ge1 unfolding B(3) by simp
qed

lemma small_error:
  assumes "0 < m" "m \<le> 1024" "0 < D" "D < 2 ^ 31"
  shows "3 * of_int m / 2 ^ 53 * of_int D < (1::rat)" and "3 * of_int m / 2 ^ 53 < (1::rat)"
proof -
  have "m * D \<le> 1024 * 2 ^ 31" using assms by (intro mult_mono) simp_all
  then have "(of_int (m * D) :: rat) \<le> of_int (1024 * 2 ^ 31)" by (simp only: of_int_le_iff)
  then have "(of_int m * of_int D :: rat) \<le> 1024 * 2 ^ 31" by simp
  then show "3 * of_int m / 2 ^ 53 * of_int D < (1::rat)" by (simp add: field_simps)
  have "(of_int m :: rat) \<le> 1024" using assms(2) by simp
  then show "3 * of_int m / 2 ^ 53 < (1::rat)" by simp
qed

lemma wide_whole:
  fixes m n :: int and r0 :: rat
  assumes m: "0 < m" "m \<le> 1024" and r0: "0 < r0" "fl r0 \<le> 1"
    and n: "of_int m * r0 = of_int n"
  shows "round_aspect (fl (of_int m * fl r0)) (\<lambda>k. \<bar>fl (fl r0 - fl (of_int k / of_int m))\<bar>) = n"
proof (rule round_aspect_int)
  have mq: "(0::rat) < of_int m" using m(1) by simp
  have "(0::rat) < of_int n" using n[symmetric] mq r0(1) by simp
  then show n1: "1 \<le> n" by simp
  have r: "r0 = of_int n / of_int m" using n mq by (simp add: field_simps)
  have "\<bar>fl (of_int m * fl r0) - of_int m * r0\<bar> \<le> 3 * of_int m / 2 ^ 53"
    using r0 mq by (intro err_wide(1)) 
  moreover have "3 * of_int m / 2 ^ 53 < (1::rat)" using m(2) by simp
  ultimately show "\<bar>fl (of_int m * fl r0) - of_int n\<bar> < 1" unfolding n by linarith
  show "\<bar>fl (fl r0 - fl (of_int n / of_int m))\<bar> = 0" unfolding r by simp
  show "0 \<le> \<bar>fl (fl r0 - fl (of_int k / of_int m))\<bar>" for k by simp
  show "0 < \<bar>fl (fl r0 - fl (of_int (n - 1) / of_int m))\<bar>" if "2 \<le> n"
  proof -
    have "r0 \<le> 2" using r0 mq by (intro err_wide(2)[of r0 "of_int m"])
    then have "of_int m * r0 \<le> of_int m * 2" using mq by (intro mult_left_mono) simp_all
    then have "(of_int n :: rat) \<le> of_int (m * 2)" unfolding n by simp
    then have "n \<le> m * 2" by (simp only: of_int_le_iff)
    then have n4: "n \<le> 4096" using m(2) by simp
    have c: "(0::rat) < 1 / of_int m" using mq by simp
    from consecutive_gap[OF n1 n4 c]
    have "of_int (n - 1) / of_int m + of_int (n - 1) / of_int m / 2 ^ 53
            < of_int n / of_int m - of_int n / of_int m / (2 ^ 53 :: rat)"
      by simp
    moreover have "(0::rat) \<le> of_int (n - 1) / of_int m" using n1 mq by simp
    ultimately have "fl (of_int (n - 1) / of_int m) < fl (of_int n / of_int m)"
      by (intro fl_less)
    then have "0 < fl r0 - fl (of_int (n - 1) / of_int m)" unfolding r by simp
    then have "0 < fl (fl r0 - fl (of_int (n - 1) / of_int m))" by (rule fl_pos)
    then show ?thesis by simp
  qed
qed

lemma tall_whole:
  fixes m n :: int and r0 :: rat
  assumes m: "0 < m" "m \<le> 1024" and r0: "0 < r0" "1 < fl r0"
    and n: "of_int m / r0 = of_int n"
  shows "round_aspect (fl (of_int m / fl r0))
           (\<lambda>k. if k = 0 then 0 else \<bar>fl (fl r0 - fl (of_int m / of_int k))\<bar>) = n"
proof (rule round_aspect_int)
  have mq: "(0::rat) < of_int m" using m(1) by simp
  have "(0::rat) < of_int n" using n[symmetric] mq r0(1) by simp
  then show n1: "1 \<le> n" by simp
  then have nq: "(0::rat) < of_int n" by simp
  have r: "r0 = of_int m / of_int n" using n mq r0(1) nq by (simp add: field_simps)
  have "\<bar>fl (of_int m / fl r0) - of_int m / r0\<bar> \<le> 3 * of_int m / 2 ^ 53"
    using r0 mq by (intro err_tall(1))
  moreover have "3 * of_int m / 2 ^ 53 < (1::rat)" using m(2) by simp
  ultimately show "\<bar>fl (of_int m / fl r0) - of_int n\<bar> < 1" unfolding n by linarith
  show "(if n = 0 then 0 else \<bar>fl (fl r0 - fl (of_int m / of_int n))\<bar>) = 0"
    using n1 unfolding r by simp
  show "0 \<le> (if k = 0 then 0 else \<bar>fl (fl r0 - fl (of_int m / of_int k))\<bar>)" for k by simp
  show "0 < (if n - 1 = 0 then 0 else \<bar>fl (fl r0 - fl (of_int m / of_int (n - 1)))\<bar>)" if "2 \<le> n"
  proof -
    have "1 / 2 \<le> r0" using r0 mq by (intro err_tall(2)[of r0 "of_int m"])
    then have "of_int n * (1 / 2) \<le> of_int n * r0" using nq by (intro mult_left_mono) simp_all
    also have "of_int n * r0 = of_int m" using nq unfolding r by simp
    finally have "(of_int n :: rat) \<le> of_int (m * 2)" by simp
    then have "n \<le> m * 2" by (simp only: of_int_le_iff)
    then have n4: "n \<le> 4096" using m(2) by simp
    have n1q: "(0::rat) < of_int (n - 1)" using that by simp
    define c :: rat where "c = of_int m / (of_int n * of_int (n - 1))"
    have c: "0 < c" using mq nq n1q unfolding c_def by simp
    have c1: "c * of_int (n - 1) = of_int m / of_int n"
      using n1q nq unfolding c_def by simp
    have c2: "c * of_int n = of_int m / of_int (n - 1)"
      using n1q nq unfolding c_def by simp
    from consecutive_gap[OF n1 n4 c]
    have "of_int m / of_int n + of_int m / of_int n / 2 ^ 53
            < of_int m / of_int (n - 1) - of_int m / of_int (n - 1) / (2 ^ 53 :: rat)"
      unfolding c1 c2 .
    moreover have "(0::rat) \<le> of_int m / of_int n" using nq mq by simp
    ultimately have "fl (of_int m / of_int n) < fl (of_int m / of_int (n - 1))"
      by (intro fl_less)
    then have "fl r0 - fl (of_int m / of_int (n - 1)) \<noteq> 0" unfolding r by simp
    then have "fl (fl r0 - fl (of_int m / of_int (n - 1))) \<noteq> 0" by (simp only: fl_zero_iff not_False_eq_True)
    then show ?thesis using that by simp
  qed
qed

lemma par_square_close:
  assumes par: "preserve_aspect_ratio (m, m) (W, H) = Inr (Some (a, b))"
    and m: "0 < m" "m \<le> 1024"
    and W: "0 < W" "W < 2 ^ 31" and H: "0 < H" "H < 2 ^ 31"
  shows "\<bar>of_int a - of_int b * (of_int W / of_int H)\<bar> < (1::rat)
       \<or> \<bar>of_int b - of_int a * (of_int H / of_int W)\<bar> < (1::rat)"
proof -
  define r0 :: rat where "r0 = of_int W / of_int H"
  have r0: "0 < r0" using W(1) H(1) by (simp add: r0_def)
  have mq: "(0::rat) < of_int m" using m(1) by simp
  have m53: "m < 2 ^ 53" using m(2) by simp
  from par m(1) m53 show ?thesis
  proof (cases rule: par_square_cases)
    case A
    note a1 = A(1)[folded r0_def]
    define v where "v = fl (of_int m * fl r0)"
    define key where "key = (\<lambda>n. \<bar>fl (fl r0 - fl (of_int n / of_int m))\<bar>)"
    have a: "a = round_aspect v key" unfolding A(3) v_def key_def r0_def ..
    have v0: "0 < v" unfolding v_def using mq r0 by (intro fl_pos mult_pos_pos) 
    have e: "of_int m * r0 = of_int (m * W) / of_int H" by (simp add: r0_def)
    have d: "\<bar>v - of_int (m * W) / of_int H\<bar> \<le> 3 * of_int m / 2 ^ 53"
      unfolding v_def e[symmetric] using r0 a1 mq by (intro err_wide(1))
    have "\<bar>of_int (round_aspect v key) - of_int (m * W) / of_int H\<bar> < (1::rat)"
    proof (rule close_core[OF v0 d H(1)])
      show "3 * of_int m / 2 ^ 53 * of_int H < (1::rat)" using m H by (rule small_error(1))
      show "round_aspect v key = n" if "of_int (m * W) / of_int H = (of_int n :: rat)" for n
        unfolding v_def key_def using m r0 a1 that[folded e] by (rule wide_whole)
    qed
    then show ?thesis unfolding a[symmetric] A(2) by simp
  next
    case B
    note a1 = B(1)[folded r0_def]
    define v where "v = fl (of_int m / fl r0)"
    define key where "key = (\<lambda>n. if n = 0 then 0 else \<bar>fl (fl r0 - fl (of_int m / of_int n))\<bar>)"
    have b: "b = round_aspect v key" unfolding B(3) v_def key_def r0_def ..
    have f0: "0 < fl r0" using a1 by simp
    have v0: "0 < v" unfolding v_def using mq f0 by (intro fl_pos) simp
    have e: "of_int m / r0 = of_int (m * H) / of_int W" by (simp add: r0_def)
    have d: "\<bar>v - of_int (m * H) / of_int W\<bar> \<le> 3 * of_int m / 2 ^ 53"
      unfolding v_def e[symmetric] using r0 a1 mq by (intro err_tall(1))
    have "\<bar>of_int (round_aspect v key) - of_int (m * H) / of_int W\<bar> < (1::rat)"
    proof (rule close_core[OF v0 d W(1)])
      show "3 * of_int m / 2 ^ 53 * of_int W < (1::rat)" using m W by (rule small_error(1))
      show "round_aspect v key = n" if "of_int (m * H) / of_int W = (of_int n :: rat)" for n
        unfolding v_def key_def using m r0 a1 that[folded e] by (rule tall_whole)
    qed
    then show ?thesis unfolding b[symmetric] B(2) by simp
  qed
qed

lemma thumbnail_size_noop: "fst s \<le> fst box \<Longrightarrow> snd s \<le> snd box \<Longrightarrow> thumbnail_size box s = s"
  by (simp add: thumbnail_size_def preserve_aspect_ratio_def)

lemma update_same_size: "im_size (g ! i) = s \<Longrightarrow> g[i := (g ! i)\<lparr>im_size := s\<rparr>] = g"
  by (metis image.surjective image.update_convs(2) list_update_id)

lemma thumbnail_Inr:
  assumes "thumbnail i box h = (Inr u, h')"
  shows "h' = h[i := (h ! i)\<lparr>im_size := thumbnail_size box (im_size (h ! i))\<rparr>]"
  using assms unfolding thumbnail_def thumbnail_size_def
  by (auto simp: update_same_size split: sum.splits option.splits if_splits)

lemma thumbnail_Inr_no_error:
  assumes "thumbnail i box h = (Inr u, h')"
  shows "\<not> isl (preserve_aspect_ratio box (im_size (h ! i)))"
  using assms unfolding thumbnail_def
  by (auto split: sum.splits)

lemma resize_image_Inr_no_error:
  assumes "resize_image i box h = (Inr r, h')"
  shows "\<not> isl (preserve_aspect_ratio box (im_size (h ! i)))"
  using assms unfolding resize_image_def Image_new_def
  by (auto split: if_splits prod.splits sum.splits dest!: thumbnail_Inr_no_error)

lemma resize_image_Inr:
  assumes "resize_image i box h = (Inr r, h')" "i < length h"
  shows "r < length h'"
    and "im_size (h' ! r) = thumbnail_size box (im_size (h ! i))"
    and "i < length h'"
    and "im_mode (h' ! i) = im_mode (h ! i)"
    and "im_size (h' ! i) = (if has_alpha_mode (h ! i) then im_size (h ! i)
                              else thumbnail_size box (im_size (h ! i)))"
  using assms unfolding resize_image_def Image_new_def has_alpha_mode_def
  by (auto simp: nth_append nth_list_update split: if_splits prod.splits sum.splits dest!: thumbnail_Inr)

subsection \<open>The variant loop\<close>

lemma loop_Cons_Inr:
  assumes "process_image_loop env k os ((v, box) # rest) i res h w = (Inr results, w')"
    and "i < length h"
  shows "\<exists>h1 w1. i < length h1 \<and> im_mode (h1 ! i) = im_mode (h ! i) \<and>
      \<not> isl (preserve_aspect_ratio box (im_size (h ! i))) \<and>
      im_size (h1 ! i) = (if has_alpha_mode (h ! i) then im_size (h ! i)
                          else thumbnail_size box (im_size (h ! i))) \<and>
      process_image_loop env k os rest i
        (AList.update v \<lparr>info_size = thumbnail_size box (im_size (h ! i)),
                          info_key = ''processed/'' @ v @ ''/'' @ k\<rparr> res) h1 w1
        = (Inr results, w')"
proof -
  obtain r h1 where rs: "resize_image i box h = (Inr r, h1)"
    using assms(1) by (auto split: prod.splits sum.splits)
  note facts = resize_image_Inr[OF rs assms(2)] resize_image_Inr_no_error[OF rs]
  show ?thesis
    using assms(1) rs facts
    by (auto simp: Let_def split: prod.splits sum.splits option.splits)
qed

lemma process_image_Inr:
  assumes "process_image env content k w = (Inr results, w')"
  shows "\<exists>img s1 s2 s3. image_open env content = Some img \<and>
      \<not> isl (preserve_aspect_ratio (150, 150) (im_size img)) \<and>
      s1 = thumbnail_size (150, 150) (im_size img) \<and>
      s2 = thumbnail_size (480, 480) (if has_alpha_mode img then im_size img else s1) \<and>
      s3 = thumbnail_size (1024, 1024) (if has_alpha_mode img then im_size img else s2) \<and>
      results = [(''thumbnail'', \<lparr>info_size = s1, info_key = ''processed/thumbnail/'' @ k\<rparr>),
                 (''mobile'', \<lparr>info_size = s2, info_key = ''processed/mobile/'' @ k\<rparr>),
                 (''web'', \<lparr>info_size = s3, info_key = ''processed/web/'' @ k\<rparr>)]"
proof -
  obtain img where op: "image_open env content = Some img"
    and l0: "process_image_loop env k (im_size img) SIZES 0 [] [img] w = (Inr results, w')"
    using assms by (auto simp: process_image_def split: option.splits)
  define S where "S = im_size img"
  define a where "a = has_alpha_mode img"
  define s1 where "s1 = thumbnail_size (150, 150) S"
  define s2 where "s2 = thumbnail_size (480, 480) (if a then S else s1)"
  define s3 where "s3 = thumbnail_size (1024, 1024) (if a then S else s2)"
  from loop_Cons_Inr[OF l0[unfolded SIZES_def]]
  obtain h1 w1 where i1: "0 < length h1" and m1: "im_mode (h1 ! 0) = im_mode img"
    and ok: "\<not> isl (preserve_aspect_ratio (150, 150) S)"
    and z1: "im_size (h1 ! 0) = (if a then S else s1)"
    and l1: "process_image_loop env k S [(''mobile'', (480, 480)), (''web'', (1024, 1024))] 0
        [(''thumbnail'', \<lparr>info_size = s1, info_key = ''processed/thumbnail/'' @ k\<rparr>)] h1 w1
        = (Inr results, w')"
    by (auto simp: S_def a_def s1_def)
  have a1: "has_alpha_mode (h1 ! 0) = a" using m1 by (simp add: has_alpha_mode_def a_def)
  from loop_Cons_Inr[OF l1 i1]
  obtain h2 w2 where i2: "0 < length h2" and m2: "im_mode (h2 ! 0) = im_mode img"
    and z2: "im_size (h2 ! 0) = (if a then S else s2)"
    and l2: "process_image_loop env k S [(''web'', (1024, 1024))] 0
        [(''thumbnail'', \<lparr>info_size = s1, info_key = ''processed/thumbnail/'' @ k\<rparr>),
         (''mobile'', \<lparr>info_size = s2, info_key = ''processed/mobile/'' @ k\<rparr>)] h2 w2
        = (Inr results, w')"
    unfolding a1 z1 m1 by (auto simp: s2_def)
  have a2: "has_alpha_mode (h2 ! 0) = a" using m2 by (simp add: has_alpha_mode_def a_def)
  from loop_Cons_Inr[OF l2 i2]
  obtain h3 w3 where
    l3: "process_image_loop env k S [] 0
        [(''thumbnail'', \<lparr>info_size = s1, info_key = ''processed/thumbnail/'' @ k\<rparr>),
         (''mobile'', \<lparr>info_size = s2, info_key = ''processed/mobile/'' @ k\<rparr>),
         (''web'', \<lparr>info_size = s3, info_key = ''processed/web/'' @ k\<rparr>)] h3 w3
        = (Inr results, w')"
    unfolding a2 z2 m2 by (auto simp: s3_def)
  then have "results = [(''thumbnail'', \<lparr>info_size = s1, info_key = ''processed/thumbnail/'' @ k\<rparr>),
         (''mobile'', \<lparr>info_size = s2, info_key = ''processed/mobile/'' @ k\<rparr>),
         (''web'', \<lparr>info_size = s3, info_key = ''processed/web/'' @ k\<rparr>)]"
    by simp
  then show ?thesis using op ok unfolding s1_def s2_def s3_def S_def a_def by blast
qed

lemma loop_calls:
  assumes "process_image_loop env k os sizes i res h w = (Inr results, w')"
  shows "\<exists>cs. calls w' = calls w @ cs \<and> notifications w' = notifications w \<and>
      map put_target cs = map (\<lambda>vb. Some (PROCESSED_BUCKET env, ''processed/'' @ fst vb @ ''/'' @ k)) sizes"
  using assms
proof (induction sizes arbitrary: res h w)
  case Nil
  then show ?case by simp
next
  case (Cons vb rest)
  obtain v box where vb: "vb = (v, box)" by (cases vb)
  from Cons.prems obtain res1 h1 w1 where
    step: "process_image_loop env k os rest i res1 h1 w1 = (Inr results, w')"
    and c1: "\<exists>obj. calls w1 = calls w @ [PutObject (PROCESSED_BUCKET env) (''processed/'' @ v @ ''/'' @ k) obj]"
    and n1: "notifications w1 = notifications w"
    unfolding vb
    by (auto simp: Let_def put_object_def utcnow_isoformat_def
             split: prod.splits sum.splits option.splits if_splits)
  from Cons.IH[OF step] c1 n1 show ?case
    unfolding vb by auto
qed

lemma thumbnail_size_box:
  assumes "thumbnail_size (m, m) s = (a, b)" "\<not> isl (preserve_aspect_ratio (m, m) s)"
    and "0 < m" "m < 2 ^ 53"
  shows "a \<le> m \<and> b \<le> m"
proof (cases "preserve_aspect_ratio (m, m) s")
  case (Inl e)
  then show ?thesis using assms(2) by simp
next
  case (Inr r)
  show ?thesis
  proof (cases r)
    case None
    then have "fst s \<le> m \<and> snd s \<le> m"
      using Inr unfolding preserve_aspect_ratio_def by (auto simp: Let_def split: if_splits)
    moreover have "s = (a, b)" using assms(1) Inr None by (simp add: thumbnail_size_def)
    ultimately show ?thesis by auto
  next
    case (Some ab)
    then have "preserve_aspect_ratio (m, m) (fst s, snd s) = Inr (Some (a, b))"
      using assms(1) Inr by (simp add: thumbnail_size_def)
    from par_square_bounds[OF this assms(3,4)] show ?thesis by simp
  qed
qed

lemma par_no_error_pos:
  assumes "0 < x" "0 < y" "0 < W" "0 < H"
  shows "\<not> isl (preserve_aspect_ratio (x, y) (W, H))"
proof -
  have "(0::rat) < of_int W / of_int H" using assms(3,4) by simp
  then have "fl (of_int W / of_int H) \<noteq> 0" by (simp only: fl_zero_iff)
  then show ?thesis
    using assms unfolding preserve_aspect_ratio_def by (simp add: Let_def)
qed

lemma thumbnail_size_close:
  assumes "thumbnail_size (m, m) (W, H) = (a, b)" "0 < m" "m \<le> 1024"
    and "0 < W" "W < 2 ^ 31" "0 < H" "H < 2 ^ 31"
  shows "\<bar>of_int a - of_int b * (of_int W / of_int H)\<bar> < (1::rat)
       \<or> \<bar>of_int b - of_int a * (of_int H / of_int W)\<bar> < (1::rat)"
proof (cases "preserve_aspect_ratio (m, m) (W, H)")
  case (Inl e)
  then show ?thesis using par_no_error_pos[OF assms(2) assms(2) assms(4) assms(6)] by simp
next
  case (Inr r)
  show ?thesis
  proof (cases r)
    case None
    then have "(a, b) = (W, H)" using assms(1) Inr by (simp add: thumbnail_size_def)
    then show ?thesis using assms(4,6) by simp
  next
    case (Some ab)
    then have "preserve_aspect_ratio (m, m) (W, H) = Inr (Some (a, b))"
      using assms(1) Inr by (simp add: thumbnail_size_def)
    from par_square_close[OF this assms(2-7)] show ?thesis .
  qed
qed

subsection \<open>The record loop\<close>

lemma records_loop_append:
  "records_loop env (pre @ post) w =
     (case records_loop env pre w of
        (Inl e, w1) \<Rightarrow> (Inl e, w1)
      | (Inr u, w1) \<Rightarrow> records_loop env post w1)"
  by (induction pre arbitrary: w) (auto simp: Let_def split: prod.splits sum.splits)

lemma records_loop_skip:
  assumes "sublist ''processed/'' (object_key r)"
  shows "records_loop env (pre @ r # post) w = records_loop env (pre @ post) w"
  using assms by (simp add: records_loop_append Let_def split: prod.splits sum.splits)

subsection \<open>The handler does not read what \<open>publish\<close> did\<close>

lemma loop_result_indep:
  "fst (process_image_loop (env\<lparr>publish_denied := pd, SNS_TOPIC_ARN := t\<rparr>) k os sizes i res h w1)
     = fst (process_image_loop env k os sizes i res h w2)"
proof (induction sizes arbitrary: res h w1 w2)
  case Nil
  then show ?case by simp
next
  case (Cons vb rest)
  obtain v box where vb: "vb = (v, box)" by (cases vb)
  show ?case unfolding vb
    by (auto simp: Let_def put_object_def utcnow_isoformat_def
             split: prod.splits sum.splits option.splits intro!: Cons.IH)
qed

lemma loop_store_indep:
  "same_store w1 w2 \<Longrightarrow>
   same_store (snd (process_image_loop (env\<lparr>publish_denied := pd, SNS_TOPIC_ARN := t\<rparr>) k os sizes i res h w1))
              (snd (process_image_loop env k os sizes i res h w2))"
proof (induction sizes arbitrary: res h w1 w2)
  case Nil
  then show ?case by simp
next
  case (Cons vb rest)
  obtain v box where vb: "vb = (v, box)" by (cases vb)
  show ?case using Cons.prems unfolding vb
    by (auto simp: Let_def put_object_def utcnow_isoformat_def same_store_def
             split: prod.splits sum.splits option.splits intro!: Cons.IH[unfolded same_store_def])
qed

lemma process_image_indep:
  assumes "same_store w1 w2"
    and "process_image (env\<lparr>publish_denied := pd, SNS_TOPIC_ARN := t\<rparr>) c k w1 = (r1, w1')"
    and "process_image env c k w2 = (r2, w2')"
  shows "r1 = r2 \<and> same_store w1' w2'"
proof (cases "image_open env c")
  case None
  then show ?thesis using assms by (auto simp: process_image_def)
next
  case (Some img)
  have e: "r1 = fst (process_image_loop (env\<lparr>publish_denied := pd, SNS_TOPIC_ARN := t\<rparr>) k (im_size img) SIZES 0 [] [img] w1)"
    "w1' = snd (process_image_loop (env\<lparr>publish_denied := pd, SNS_TOPIC_ARN := t\<rparr>) k (im_size img) SIZES 0 [] [img] w1)"
    "r2 = fst (process_image_loop env k (im_size img) SIZES 0 [] [img] w2)"
    "w2' = snd (process_image_loop env k (im_size img) SIZES 0 [] [img] w2)"
    using assms(2,3) Some by (auto simp: process_image_def)
  show ?thesis
    unfolding e by (intro conjI loop_result_indep loop_store_indep assms(1))
qed

lemma send_notification_store:
  "same_store w1 w2 \<Longrightarrow> same_store (send_notification env1 k res w1) (send_notification env2 k res w2)"
  by (auto simp: send_notification_def publish_def utcnow_isoformat_def same_store_def Let_def
           split: prod.splits sum.splits option.splits)

lemma records_loop_indep:
  "same_store w1 w2 \<Longrightarrow>
   fst (records_loop (env\<lparr>publish_denied := pd, SNS_TOPIC_ARN := t\<rparr>) event w1)
     = fst (records_loop env event w2)"
proof (induction event arbitrary: w1 w2)
  case Nil
  then show ?case by simp
next
  case (Cons r rest)
  let ?env' = "env\<lparr>publish_denied := pd, SNS_TOPIC_ARN := t\<rparr>"
  show ?case
  proof (cases "sublist ''processed/'' (object_key r)")
    case True
    then show ?thesis using Cons.IH[OF Cons.prems] by simp
  next
    case False
    have ob: "objects w1 = objects w2" using Cons.prems by (simp add: same_store_def)
    show ?thesis
    proof (cases "objects w2 (bucket_name r, object_key r)")
      case None
      then show ?thesis using False ob by (simp add: get_object_def Let_def)
    next
      case (Some obj)
      define w1a where "w1a = w1\<lparr>calls := calls w1 @ [GetObject (bucket_name r) (object_key r)]\<rparr>"
      define w2a where "w2a = w2\<lparr>calls := calls w2 @ [GetObject (bucket_name r) (object_key r)]\<rparr>"
      have sa: "same_store w1a w2a" using Cons.prems by (simp add: same_store_def w1a_def w2a_def)
      obtain r1 w1b where p1: "process_image ?env' (body obj) (object_key r) w1a = (r1, w1b)"
        by (cases "process_image ?env' (body obj) (object_key r) w1a")
      obtain r2 w2b where p2: "process_image env (body obj) (object_key r) w2a = (r2, w2b)"
        by (cases "process_image env (body obj) (object_key r) w2a")
      from process_image_indep[OF sa p1 p2] have eq: "r1 = r2" and sb: "same_store w1b w2b" by auto
      have g1: "get_object (bucket_name r) (object_key r) w1 = (Inr (body obj), w1a)"
        using Some ob by (simp add: get_object_def w1a_def Let_def)
      have g2: "get_object (bucket_name r) (object_key r) w2 = (Inr (body obj), w2a)"
        using Some by (simp add: get_object_def w2a_def Let_def)
      show ?thesis
      proof (cases r2)
        case (Inl e)
        then show ?thesis using False g1 g2 p1 p2 eq by (simp add: Let_def)
      next
        case (Inr results)
        have "same_store (send_notification ?env' (object_key r) results w1b)
                         (send_notification env (object_key r) results w2b)"
          using sb by (rule send_notification_store)
        from Cons.IH[OF this] show ?thesis
          using False g1 g2 p1 p2 eq Inr by (simp add: Let_def)
      qed
    qed
  qed
qed

lemma lambda_handler_fst:
  "fst (lambda_handler env event w) =
     (case fst (records_loop env event w) of Inl e \<Rightarrow> Inl e | Inr u \<Rightarrow> Inr ok_response)"
  by (simp add: lambda_handler_def split: prod.splits sum.splits)

subsection \<open>The examples, evaluated\<close>

text \<open>Sizes that \<open>thumbnail\<close> computes, among them three where the exact quotient is a tie.\<close>

lemma par_2000_1000:
  "preserve_aspect_ratio (150, 150) (2000, 1000) = Inr (Some (150, 75))"
  "preserve_aspect_ratio (480, 480) (2000, 1000) = Inr (Some (480, 240))"
  "preserve_aspect_ratio (1024, 1024) (2000, 1000) = Inr (Some (1024, 512))"
  by code_simp+

lemma par_300_200:
  "preserve_aspect_ratio (150, 150) (300, 200) = Inr (Some (150, 100))"
  "preserve_aspect_ratio (480, 480) (150, 100) = Inr None"
  "preserve_aspect_ratio (1024, 1024) (150, 100) = Inr None"
  by code_simp+

lemma par_ties:
  "preserve_aspect_ratio (150, 150) (250, 600) = Inr (Some (63, 150))"
  "preserve_aspect_ratio (150, 150) (2050, 280) = Inr (Some (150, 21))"
  "preserve_aspect_ratio (480, 480) (970, 1920) = Inr (Some (243, 480))"
  by code_simp+

lemmas eval_defs = process_image_def SIZES_def resize_image_def Image_new_def thumbnail_def
  par_2000_1000 par_300_200 put_object_def utcnow_isoformat_def Let_def
  example_env_def

lemma example_rgba: "fst (process_image example_env [137, 80, 78, 71] ''vacation.png'' w) =
   Inr [(''thumbnail'', \<lparr>info_size = (150, 75), info_key = ''processed/thumbnail/vacation.png''\<rparr>),
        (''mobile'', \<lparr>info_size = (480, 240), info_key = ''processed/mobile/vacation.png''\<rparr>),
        (''web'', \<lparr>info_size = (1024, 512), info_key = ''processed/web/vacation.png''\<rparr>)]"
  by (simp add: eval_defs)

lemma example_rgb: "fst (process_image example_env [255, 216, 255] ''photo.jpg'' w) =
   Inr [(''thumbnail'', \<lparr>info_size = (150, 100), info_key = ''processed/thumbnail/photo.jpg''\<rparr>),
        (''mobile'', \<lparr>info_size = (150, 100), info_key = ''processed/mobile/photo.jpg''\<rparr>),
        (''web'', \<lparr>info_size = (150, 100), info_key = ''processed/web/photo.jpg''\<rparr>)]"
  by (simp add: eval_defs)

lemma example_png: "process_image example_env [137, 80, 78, 71] ''vacation.png'' w
    = (Inr vacation_results, snd (process_image example_env [137, 80, 78, 71] ''vacation.png'' w))"
  using example_rgba[of w] by (simp add: prod_eq_iff vacation_results_def)

lemma example_jpg: "process_image example_env [255, 216, 255] ''photo.jpg'' w
    = (Inr photo_results, snd (process_image example_env [255, 216, 255] ''photo.jpg'' w))"
  using example_rgb[of w] by (simp add: prod_eq_iff photo_results_def)

lemma example_open:
  "image_open example_env [137, 80, 78, 71] = Some \<lparr>im_mode = ''RGBA'', im_size = (2000, 1000)\<rparr>"
  "image_open example_env [255, 216, 255] = Some \<lparr>im_mode = ''RGB'', im_size = (300, 200)\<rparr>"
  "image_open example_env [104, 105] = None"
  by (simp_all add: example_env_def)

lemma example_keys:
  "prefix ''processed/'' ''processed/thumbnail/vacation.png''"
  "sublist ''processed/'' ''photos/processed/pic.png''"
  "\<not> prefix ''processed/'' ''photos/processed/pic.png''"
  "\<not> sublist ''processed/'' ''vacation.png''"
  "\<not> sublist ''processed/'' ''missing.png''"
  "\<not> sublist ''processed/'' ''notes.txt''"
  by code_simp+

lemma example_png_fst:
  "fst (process_image example_env [137, 80, 78, 71] ''vacation.png'' w) = Inr vacation_results"
  unfolding vacation_results_def by (rule example_rgba)

lemma example_jpg_fst:
  "fst (process_image example_env [255, 216, 255] ''photo.jpg'' w) = Inr photo_results"
  unfolding photo_results_def by (rule example_rgb)

lemma example_skip_first:
  "records_loop example_env [processed_record] example_world = (Inr (), example_world)"
proof -
  have "sublist ''processed/'' (object_key processed_record)"
    unfolding processed_record_def s3_record.simps by (rule prefix_imp_sublist[OF example_keys(1)])
  from records_loop_skip[OF this, of example_env "[]" "[]" example_world]
  show ?thesis by simp
qed

lemma example_objects:
  "objects example_world (''uploads'', ''vacation.png'')
     = Some \<lparr>body = [137, 80, 78, 71], content_type = ''image/png'', metadata = []\<rparr>"
  "objects example_world (''uploads'', ''notes.txt'')
     = Some \<lparr>body = [104, 105], content_type = ''text/plain'', metadata = []\<rparr>"
  "objects example_world (''uploads'', ''missing.png'') = None"
  by (simp_all add: example_world_def)

section \<open>The claims\<close>

subsection \<open>Sizes of the variants\<close>

text \<open>
  Claim C1 says that a variant whose box is larger than the source image keeps the
  source's dimensions. The code does not do this for an image that is resized in place:
  an RGB source of 300\<times>200 lies inside the mobile box of 480\<times>480 and inside the
  web box of 1024\<times>1024, but \<open>process_image\<close> reports 150\<times>100 for both, the size
  the thumbnail iteration left the shared image with.
\<close>

theorem mobile_variant_of_small_rgb_image:
  "image_open example_env [255, 216, 255] = Some \<lparr>im_mode = ''RGB'', im_size = (300, 200)\<rparr>
   \<and> fst (process_image example_env [255, 216, 255] ''photo.jpg'' example_world)
       = Inr [(''thumbnail'', \<lparr>info_size = (150, 100), info_key = ''processed/thumbnail/photo.jpg''\<rparr>),
              (''mobile'', \<lparr>info_size = (150, 100), info_key = ''processed/mobile/photo.jpg''\<rparr>),
              (''web'', \<lparr>info_size = (150, 100), info_key = ''processed/web/photo.jpg''\<rparr>)]"
  by (rule conjI[OF example_open(2) example_rgb])

text \<open>
  Claim C2: for every source image and every variant of \<open>SIZES\<close>, the width and height
  recorded for the variant are at most the box's width and height, and the aspect ratio
  is the source's up to rounding: one side is less than one pixel away from the other
  side scaled by the source's aspect ratio. The sides of the source are positive C ints.
\<close>

theorem variant_fits_box_and_keeps_aspect:
  assumes "process_image env image_content original_key w = (Inr results, w')"
    and "image_open env image_content = Some img"
    and "im_size img = (W, H)"
    and "0 < W" and "W < 2 ^ 31" and "0 < H" and "H < 2 ^ 31"
    and "(v, (mw, mh)) \<in> set SIZES"
    and "map_of results v = Some info"
    and "info_size info = (rw, rh)"
  shows "rw \<le> mw \<and> rh \<le> mh \<and>
         (\<bar>of_int rw - of_int rh * (of_int W / of_int H)\<bar> < (1::rat)
          \<or> \<bar>of_int rh - of_int rw * (of_int H / of_int W)\<bar> < (1::rat))"
proof -
  define good :: "int \<times> int \<Rightarrow> int \<Rightarrow> bool" where
    "good = (\<lambda>s m. fst s \<le> m \<and> snd s \<le> m \<and>
         (\<bar>of_int (fst s) - of_int (snd s) * (of_int W / of_int H)\<bar> < (1::rat)
          \<or> \<bar>of_int (snd s) - of_int (fst s) * (of_int H / of_int W)\<bar> < (1::rat)))"
  have fresh: "good (thumbnail_size (m, m) (W, H)) m" if "0 < m" "m \<le> 1024" for m
  proof -
    obtain a b where ab: "thumbnail_size (m, m) (W, H) = (a, b)"
      by (cases "thumbnail_size (m, m) (W, H)")
    have m53: "m < 2 ^ 53" using that(2) by simp
    from thumbnail_size_box[OF ab par_no_error_pos[OF that(1) that(1) assms(4,6)] that(1) m53]
      thumbnail_size_close[OF ab that assms(4-7)]
    show ?thesis unfolding good_def ab by simp
  qed
  have again: "good (thumbnail_size (m', m') s) m'" if "good s m" "m \<le> m'" for s m m'
  proof -
    have "thumbnail_size (m', m') s = s"
      using that by (intro thumbnail_size_noop) (auto simp: good_def)
    then show ?thesis using that by (auto simp: good_def)
  qed
  from process_image_Inr[OF assms(1)] assms(2)
  obtain s1 s2 s3 where
        s1: "s1 = thumbnail_size (150, 150) (im_size img)"
    and s2: "s2 = thumbnail_size (480, 480) (if has_alpha_mode img then im_size img else s1)"
    and s3: "s3 = thumbnail_size (1024, 1024) (if has_alpha_mode img then im_size img else s2)"
    and res: "results = [(''thumbnail'', \<lparr>info_size = s1, info_key = ''processed/thumbnail/'' @ original_key\<rparr>),
                 (''mobile'', \<lparr>info_size = s2, info_key = ''processed/mobile/'' @ original_key\<rparr>),
                 (''web'', \<lparr>info_size = s3, info_key = ''processed/web/'' @ original_key\<rparr>)]"
    by auto
  have g1: "good s1 150" unfolding s1 assms(3) by (rule fresh) simp_all
  have g2: "good s2 480"
  proof (cases "has_alpha_mode img")
    case True
    then show ?thesis unfolding s2 assms(3) by (simp add: fresh)
  next
    case False
    then show ?thesis unfolding s2 using again[OF g1, of 480] by simp
  qed
  have g3: "good s3 1024"
  proof (cases "has_alpha_mode img")
    case True
    then show ?thesis unfolding s3 assms(3) by (simp add: fresh)
  next
    case False
    then show ?thesis unfolding s3 using again[OF g2, of 1024] by simp
  qed
  consider (t) "v = ''thumbnail''" "mw = 150" "mh = 150" "info_size info = s1"
    | (m) "v = ''mobile''" "mw = 480" "mh = 480" "info_size info = s2"
    | (w) "v = ''web''" "mw = 1024" "mh = 1024" "info_size info = s3"
    using assms(8,9) unfolding res SIZES_def by (auto split: if_splits)
  then show ?thesis
  proof cases
    case t
    then have "s1 = (rw, rh)" using assms(10) by simp
    then show ?thesis using g1 t by (simp add: good_def)
  next
    case m
    then have "s2 = (rw, rh)" using assms(10) by simp
    then show ?thesis using g2 m by (simp add: good_def)
  next
    case w
    then have "s3 = (rw, rh)" using assms(10) by simp
    then show ?thesis using g3 w by (simp add: good_def)
  qed
qed

text \<open>The mobile variant of the 2000\<times>1000 example is 480\<times>240.\<close>

theorem variant_fits_box_and_keeps_aspect_witness:
  "fst (process_image example_env [137, 80, 78, 71] ''vacation.png'' example_world) = Inr vacation_results
   \<and> map_of vacation_results ''mobile''
       = Some \<lparr>info_size = (480, 240), info_key = ''processed/mobile/vacation.png''\<rparr>
   \<and> ((480::int) \<le> 480 \<and> (240::int) \<le> 480
     \<and> (\<bar>of_int 480 - of_int 240 * (of_int 2000 / of_int 1000)\<bar> < (1::rat)
       \<or> \<bar>of_int 240 - of_int 480 * (of_int 1000 / of_int 2000)\<bar> < (1::rat)))"
proof -
  have m: "map_of vacation_results ''mobile''
       = Some \<lparr>info_size = (480, 240), info_key = ''processed/mobile/vacation.png''\<rparr>"
    by (simp add: vacation_results_def)
  have i: "(''mobile'', (480, 480)) \<in> set SIZES" by (simp add: SIZES_def)
  have z: "im_size \<lparr>im_mode = ''RGBA'', im_size = (2000, 1000)\<rparr> = (2000, 1000)"
    and y: "info_size \<lparr>info_size = (480, 240), info_key = ''processed/mobile/vacation.png''\<rparr> = (480, 240)"
    and p: "(0::int) < 2000" "(2000::int) < 2 ^ 31" "(0::int) < 1000" "(1000::int) < 2 ^ 31"
    by simp_all
  note c = variant_fits_box_and_keeps_aspect[OF example_png[of example_world] example_open(1) z p i m y]
  show ?thesis
    by (rule conjI[OF example_png_fst conjI[OF m c]])
qed

text \<open>
  Claim C10: for a source image whose mode is none of RGBA, LA and P and which does not
  fit the thumbnail box of 150\<times>150, the three variants that a successful
  \<open>process_image\<close> reports all have the size that \<open>thumbnail\<close> computes for the
  thumbnail box; the mobile and web sizes are not computed from the source's size.
\<close>

theorem shared_image_resized_in_place:
  assumes "process_image env image_content original_key w = (Inr results, w')"
    and "image_open env image_content = Some img"
    and "im_mode img \<notin> {''RGBA'', ''LA'', ''P''}"
    and "im_size img = (W, H)"
    and "150 < W \<or> 150 < H"
  shows "\<exists>s. preserve_aspect_ratio (150, 150) (W, H) = Inr (Some s) \<and>
             fst s \<le> 150 \<and> snd s \<le> 150 \<and>
             map (\<lambda>(v, info). (v, info_size info)) results
               = [(''thumbnail'', s), (''mobile'', s), (''web'', s)]"
proof -
  from process_image_Inr[OF assms(1)] assms(2)
  obtain s1 s2 s3 where ok: "\<not> isl (preserve_aspect_ratio (150, 150) (im_size img))"
    and s1: "s1 = thumbnail_size (150, 150) (im_size img)"
    and s2: "s2 = thumbnail_size (480, 480) (if has_alpha_mode img then im_size img else s1)"
    and s3: "s3 = thumbnail_size (1024, 1024) (if has_alpha_mode img then im_size img else s2)"
    and res: "results = [(''thumbnail'', \<lparr>info_size = s1, info_key = ''processed/thumbnail/'' @ original_key\<rparr>),
                 (''mobile'', \<lparr>info_size = s2, info_key = ''processed/mobile/'' @ original_key\<rparr>),
                 (''web'', \<lparr>info_size = s3, info_key = ''processed/web/'' @ original_key\<rparr>)]"
    by auto
  have na: "\<not> has_alpha_mode img" using assms(3) by (simp add: has_alpha_mode_def)
  have "preserve_aspect_ratio (150, 150) (W, H) \<noteq> Inr None"
    using assms(5) unfolding preserve_aspect_ratio_def by (auto simp: Let_def)
  then obtain s where par: "preserve_aspect_ratio (150, 150) (W, H) = Inr (Some s)"
    using ok unfolding assms(4) by (cases "preserve_aspect_ratio (150, 150) (W, H)") auto
  have e1: "s1 = s" unfolding s1 assms(4) thumbnail_size_def par by simp
  obtain a b where ab: "s = (a, b)" by (cases s)
  from par_square_bounds[OF par[unfolded ab]] have bd: "a \<le> 150 \<and> b \<le> 150" by simp
  have e2: "s2 = s" unfolding s2 using na e1 ab bd by (simp add: thumbnail_size_noop)
  have e3: "s3 = s" unfolding s3 using na e2 ab bd by (simp add: thumbnail_size_noop)
  show ?thesis using par res e1 e2 e3 ab bd by simp
qed

text \<open>The RGB example of 300\<times>200: all three variants are 150\<times>100.\<close>

theorem shared_image_resized_in_place_witness:
  "image_open example_env [255, 216, 255] = Some \<lparr>im_mode = ''RGB'', im_size = (300, 200)\<rparr>
   \<and> fst (process_image example_env [255, 216, 255] ''photo.jpg'' example_world) = Inr photo_results
   \<and> (\<exists>s. preserve_aspect_ratio (150, 150) (300, 200) = Inr (Some s) \<and>
            fst s \<le> 150 \<and> snd s \<le> 150 \<and>
            map (\<lambda>(v, info). (v, info_size info)) photo_results
              = [(''thumbnail'', s), (''mobile'', s), (''web'', s)])"
proof -
  have a: "im_mode \<lparr>im_mode = ''RGB'', im_size = (300, 200)\<rparr> \<notin> {''RGBA'', ''LA'', ''P''}"
    and b: "im_size \<lparr>im_mode = ''RGB'', im_size = (300, 200)\<rparr> = (300, 200)"
    and c: "(150::int) < 300 \<or> (150::int) < 200"
    by simp_all
  note t = shared_image_resized_in_place[OF example_jpg[of example_world] example_open(2) a b c]
  show ?thesis
    by (rule conjI[OF example_open(2) conjI[OF example_jpg_fst t]])
qed

subsection \<open>The result mapping and the destination keys\<close>

text \<open>
  Claim C3: whenever \<open>process_image\<close> succeeds, the keys of the result mapping are
  exactly thumbnail, mobile and web, in the order of \<open>SIZES\<close>; a success never carries
  a partial set of variants.
\<close>

theorem process_image_result_keys:
  assumes "process_image env image_content original_key w = (Inr results, w')"
  shows "map fst results = [''thumbnail'', ''mobile'', ''web''] \<and> map fst results = map fst SIZES"
  using process_image_Inr[OF assms] by (auto simp: SIZES_def)

text \<open>The example of the RGBA image succeeds, with these keys.\<close>

theorem process_image_result_keys_witness:
  "fst (process_image example_env [137, 80, 78, 71] ''vacation.png'' example_world) = Inr vacation_results
     \<and> map fst vacation_results = [''thumbnail'', ''mobile'', ''web'']
     \<and> map fst vacation_results = map fst SIZES"
  using example_png_fst[of example_world] process_image_result_keys[OF example_png[of example_world]]
  by (rule conjI)

text \<open>
  Claim C6: whenever \<open>process_image\<close> succeeds for the original key \<open>k\<close>, the key
  recorded for each variant \<open>v\<close> is \<open>processed/v/k\<close>, and the calls it made are exactly
  one \<open>put_object\<close> per variant, in the order of \<open>SIZES\<close>, to the processed bucket under
  the key \<open>processed/v/k\<close>.
\<close>

theorem destination_key_is_processed_variant_key:
  assumes "process_image env image_content original_key w = (Inr results, w')"
  shows "map (\<lambda>(v, info). (v, info_key info)) results
           = map (\<lambda>(v, box). (v, ''processed/'' @ v @ ''/'' @ original_key)) SIZES
       \<and> (\<exists>cs. calls w' = calls w @ cs \<and>
                map put_target cs
                  = map (\<lambda>(v, box). Some (PROCESSED_BUCKET env, ''processed/'' @ v @ ''/'' @ original_key)) SIZES)"
proof
  show "map (\<lambda>(v, info). (v, info_key info)) results
           = map (\<lambda>(v, box). (v, ''processed/'' @ v @ ''/'' @ original_key)) SIZES"
    using process_image_Inr[OF assms] by (auto simp: SIZES_def)
next
  obtain img where "process_image_loop env original_key (im_size img) SIZES 0 [] [img] w = (Inr results, w')"
    using assms by (auto simp: process_image_def split: option.splits)
  from loop_calls[OF this]
  show "\<exists>cs. calls w' = calls w @ cs \<and>
                map put_target cs
                  = map (\<lambda>(v, box). Some (PROCESSED_BUCKET env, ''processed/'' @ v @ ''/'' @ original_key)) SIZES"
    by (auto simp: case_prod_beta)
qed

text \<open>The keys and the writes of the RGBA example.\<close>

theorem destination_key_is_processed_variant_key_witness:
  "fst (process_image example_env [137, 80, 78, 71] ''vacation.png'' example_world) = Inr vacation_results
   \<and> map (\<lambda>(v, info). (v, info_key info)) vacation_results
       = [(''thumbnail'', ''processed/thumbnail/vacation.png''),
          (''mobile'', ''processed/mobile/vacation.png''),
          (''web'', ''processed/web/vacation.png'')]
   \<and> map put_target (calls (snd (process_image example_env [137, 80, 78, 71] ''vacation.png'' example_world)))
       = [Some (Some ''processed-bucket'', ''processed/thumbnail/vacation.png''),
          Some (Some ''processed-bucket'', ''processed/mobile/vacation.png''),
          Some (Some ''processed-bucket'', ''processed/web/vacation.png'')]"
proof -
  define w' where "w' = snd (process_image example_env [137, 80, 78, 71] ''vacation.png'' example_world)"
  note t = destination_key_is_processed_variant_key[OF example_png[of example_world], folded w'_def]
  have k: "map (\<lambda>(v, info). (v, info_key info)) vacation_results
       = [(''thumbnail'', ''processed/thumbnail/vacation.png''),
          (''mobile'', ''processed/mobile/vacation.png''),
          (''web'', ''processed/web/vacation.png'')]"
    using t by (simp add: SIZES_def)
  obtain cs where cs: "calls w' = calls example_world @ cs"
    and tg: "map put_target cs = map (\<lambda>(v, box). Some (PROCESSED_BUCKET example_env,
               ''processed/'' @ v @ ''/'' @ ''vacation.png'')) SIZES"
    using t by blast
  have e: "calls example_world = []" by (simp add: example_world_def)
  have b: "PROCESSED_BUCKET example_env = Some ''processed-bucket''" by (simp add: example_env_def)
  have c: "map put_target (calls w')
       = [Some (Some ''processed-bucket'', ''processed/thumbnail/vacation.png''),
          Some (Some ''processed-bucket'', ''processed/mobile/vacation.png''),
          Some (Some ''processed-bucket'', ''processed/web/vacation.png'')]"
    unfolding cs e using tg by (simp add: b SIZES_def)
  show ?thesis
    unfolding w'_def[symmetric] by (rule conjI[OF example_png_fst conjI[OF k c]])
qed

text \<open>
  Claim C4: with the object \<open>vacation.png\<close> in the bucket \<open>uploads\<close> decoding to an RGBA
  image of 2000\<times>1000, and an encoder, a processed bucket and a topic that refuse
  nothing, \<open>process_image\<close> returns the three entries thumbnail 150\<times>75, mobile
  480\<times>240 and web 1024\<times>512, and the handler returns the success response after one
  fetch, three writes under \<open>processed/thumbnail/vacation.png\<close>,
  \<open>processed/mobile/vacation.png\<close> and \<open>processed/web/vacation.png\<close>, and one
  published notification.
\<close>

theorem vacation_scenario:
  assumes src: "objects w (''uploads'', ''vacation.png'') = Some obj"
    and dec: "image_open env (body obj) = Some \<lparr>im_mode = ''RGBA'', im_size = (2000, 1000)\<rparr>"
    and enc: "\<forall>s. jpeg_save env \<lparr>im_mode = ''RGB'', im_size = s\<rparr> \<noteq> None"
    and bucket: "PROCESSED_BUCKET env = Some pb"
    and put: "\<forall>key. \<not> put_denied env pb key"
    and topic: "SNS_TOPIC_ARN env = Some t"
    and pub: "\<forall>subject message. \<not> publish_denied env t subject message"
  shows "fst (process_image env (body obj) ''vacation.png''
               (w\<lparr>calls := calls w @ [GetObject ''uploads'' ''vacation.png'']\<rparr>))
           = Inr [(''thumbnail'', \<lparr>info_size = (150, 75), info_key = ''processed/thumbnail/vacation.png''\<rparr>),
                  (''mobile'', \<lparr>info_size = (480, 240), info_key = ''processed/mobile/vacation.png''\<rparr>),
                  (''web'', \<lparr>info_size = (1024, 512), info_key = ''processed/web/vacation.png''\<rparr>)]
       \<and> (\<exists>w' o1 o2 o3 message.
             lambda_handler env [\<lparr>bucket_name = ''uploads'', object_key = ''vacation.png''\<rparr>] w
               = (Inr ok_response, w')
           \<and> calls w' = calls w @
               [GetObject ''uploads'' ''vacation.png'',
                PutObject (Some pb) ''processed/thumbnail/vacation.png'' o1,
                PutObject (Some pb) ''processed/mobile/vacation.png'' o2,
                PutObject (Some pb) ''processed/web/vacation.png'' o3,
                Publish (Some t) ''Image Processed: vacation.png'' message]
           \<and> notifications w' = notifications w @ [(t, ''Image Processed: vacation.png'', message)])"
proof -
  obtain b1 where b1: "jpeg_save env \<lparr>im_mode = ''RGB'', im_size = (150, 75)\<rparr> = Some b1"
    using enc by (meson option.exhaust)
  obtain b2 where b2: "jpeg_save env \<lparr>im_mode = ''RGB'', im_size = (480, 240)\<rparr> = Some b2"
    using enc by (meson option.exhaust)
  obtain b3 where b3: "jpeg_save env \<lparr>im_mode = ''RGB'', im_size = (1024, 512)\<rparr> = Some b3"
    using enc by (meson option.exhaust)
  note ev = process_image_def SIZES_def resize_image_def Image_new_def thumbnail_def par_2000_1000
    put_object_def utcnow_isoformat_def Let_def
  define o1 where "o1 = \<lparr>body = b1, content_type = ''image/jpeg'',
                  metadata = [(''original-size'', fmt_size (2000, 1000)),
                              (''processed-size'', fmt_size (150, 75)),
                              (''variant'', ''thumbnail''),
                              (''processed-date'', isoformat env (clock w))]\<rparr>"
  define o2 where "o2 = \<lparr>body = b2, content_type = ''image/jpeg'',
                  metadata = [(''original-size'', fmt_size (2000, 1000)),
                              (''processed-size'', fmt_size (480, 240)),
                              (''variant'', ''mobile''),
                              (''processed-date'', isoformat env (Suc (clock w)))]\<rparr>"
  define o3 where "o3 = \<lparr>body = b3, content_type = ''image/jpeg'',
                  metadata = [(''original-size'', fmt_size (2000, 1000)),
                              (''processed-size'', fmt_size (1024, 512)),
                              (''variant'', ''web''),
                              (''processed-date'', isoformat env (Suc (Suc (clock w))))]\<rparr>"
  define w1 where "w1 = w\<lparr>calls := calls w @ [GetObject ''uploads'' ''vacation.png'']\<rparr>"
  define w2 where "w2 = snd (process_image env (body obj) ''vacation.png'' w1)"
  have r: "fst (process_image env (body obj) ''vacation.png'' w1) = Inr vacation_results"
    using dec b1 b2 b3 bucket put by (simp add: ev vacation_results_def)
  have c: "calls w2 = calls w @
               [GetObject ''uploads'' ''vacation.png'',
                PutObject (Some pb) ''processed/thumbnail/vacation.png'' o1,
                PutObject (Some pb) ''processed/mobile/vacation.png'' o2,
                PutObject (Some pb) ''processed/web/vacation.png'' o3]"
    unfolding w2_def using dec b1 b2 b3 bucket put by (simp add: ev w1_def o1_def o2_def o3_def)
  have n: "notifications w2 = notifications w"
    unfolding w2_def using dec b1 b2 b3 bucket put by (simp add: ev w1_def)
  have p: "process_image env (body obj) ''vacation.png'' w1 = (Inr vacation_results, w2)"
    using r by (simp add: w2_def prod_eq_iff)
  define message where "message =
     nl @ ''Image Processing Complete!'' @ nl @ nl @ ''Original Image: '' @ ''vacation.png'' @ nl
       @ ''Processed Variants:'' @ nl @ concat (map variant_line vacation_results)
       @ nl @ ''Processed at: '' @ isoformat env (clock w2)"
  define w3 where "w3 = send_notification env ''vacation.png'' vacation_results w2"
  have s: "calls w3 = calls w2 @ [Publish (Some t) ''Image Processed: vacation.png'' message]"
    "notifications w3 = notifications w2 @ [(t, ''Image Processed: vacation.png'', message)]"
    unfolding w3_def using topic pub
    by (simp_all add: send_notification_def publish_def utcnow_isoformat_def Let_def message_def)
  have h: "lambda_handler env [\<lparr>bucket_name = ''uploads'', object_key = ''vacation.png''\<rparr>] w
             = (Inr ok_response, w3)"
  proof -
    have ns: "\<not> sublist ''processed/'' ''vacation.png''" by code_simp
    show ?thesis
      using src ns
      by (simp add: lambda_handler_def get_object_def Let_def p[unfolded w1_def] w3_def)
  qed
  have first: "fst (process_image env (body obj) ''vacation.png''
               (w\<lparr>calls := calls w @ [GetObject ''uploads'' ''vacation.png'']\<rparr>))
           = Inr [(''thumbnail'', \<lparr>info_size = (150, 75), info_key = ''processed/thumbnail/vacation.png''\<rparr>),
                  (''mobile'', \<lparr>info_size = (480, 240), info_key = ''processed/mobile/vacation.png''\<rparr>),
                  (''web'', \<lparr>info_size = (1024, 512), info_key = ''processed/web/vacation.png''\<rparr>)]"
    using r unfolding w1_def vacation_results_def .
  have second: "lambda_handler env [\<lparr>bucket_name = ''uploads'', object_key = ''vacation.png''\<rparr>] w
               = (Inr ok_response, w3)
           \<and> calls w3 = calls w @
               [GetObject ''uploads'' ''vacation.png'',
                PutObject (Some pb) ''processed/thumbnail/vacation.png'' o1,
                PutObject (Some pb) ''processed/mobile/vacation.png'' o2,
                PutObject (Some pb) ''processed/web/vacation.png'' o3,
                Publish (Some t) ''Image Processed: vacation.png'' message]
           \<and> notifications w3 = notifications w @ [(t, ''Image Processed: vacation.png'', message)]"
    using h s c n by simp
  show ?thesis
    by (rule conjI[OF first]) (intro exI, rule second)
qed

text \<open>The example environment and world satisfy the assumptions of the scenario.\<close>

theorem vacation_scenario_witness:
  "fst (process_image example_env [137, 80, 78, 71] ''vacation.png''
          (example_world\<lparr>calls := calls example_world @ [GetObject ''uploads'' ''vacation.png'']\<rparr>))
     = Inr vacation_results
   \<and> (\<exists>w' o1 o2 o3 message.
         lambda_handler example_env [vacation_record] example_world = (Inr ok_response, w')
       \<and> calls w' = calls example_world @
           [GetObject ''uploads'' ''vacation.png'',
            PutObject (Some ''processed-bucket'') ''processed/thumbnail/vacation.png'' o1,
            PutObject (Some ''processed-bucket'') ''processed/mobile/vacation.png'' o2,
            PutObject (Some ''processed-bucket'') ''processed/web/vacation.png'' o3,
            Publish (Some ''topic'') ''Image Processed: vacation.png'' message]
       \<and> notifications w' = notifications example_world
            @ [(''topic'', ''Image Processed: vacation.png'', message)])"
proof -
  let ?png = "\<lparr>body = [137, 80, 78, 71], content_type = ''image/png'', metadata = []\<rparr>"
  have h2: "image_open example_env (body ?png) = Some \<lparr>im_mode = ''RGBA'', im_size = (2000, 1000)\<rparr>"
    unfolding s3_object.simps by (rule example_open(1))
  have h: "\<forall>s. jpeg_save example_env \<lparr>im_mode = ''RGB'', im_size = s\<rparr> \<noteq> None"
    "PROCESSED_BUCKET example_env = Some ''processed-bucket''"
    "\<forall>key. \<not> put_denied example_env ''processed-bucket'' key"
    "SNS_TOPIC_ARN example_env = Some ''topic''"
    "\<forall>subject message. \<not> publish_denied example_env ''topic'' subject message"
    by (simp_all add: example_env_def)
  from vacation_scenario[OF example_objects(1) h2 h]
  show ?thesis
    unfolding vacation_record_def vacation_results_def s3_object.simps .
qed

subsection \<open>Skipped records\<close>

text \<open>
  Claim C5: a record whose key starts with \<open>processed/\<close> is skipped. The handler
  behaves on an event with such a record exactly as on the event without it (same
  outcome, same calls, same stored objects, same notifications), and an event that
  consists of such a record alone returns the success response and leaves the world
  as it was.
\<close>

theorem processed_prefix_is_skipped:
  assumes "prefix ''processed/'' (object_key r)"
  shows "lambda_handler env (pre @ r # post) w = lambda_handler env (pre @ post) w
       \<and> lambda_handler env [r] w = (Inr ok_response, w)"
proof -
  have sub: "sublist ''processed/'' (object_key r)"
    using assms by (rule prefix_imp_sublist)
  have "records_loop env (pre @ r # post) w = records_loop env (pre @ post) w"
    using sub by (rule records_loop_skip)
  moreover have "records_loop env [r] w = (Inr (), w)"
    using records_loop_skip[OF sub, of env "[]" "[]" w] by simp
  ultimately show ?thesis by (simp add: lambda_handler_def)
qed

text \<open>The record with the key \<open>processed/thumbnail/vacation.png\<close>.\<close>

theorem processed_prefix_is_skipped_witness:
  "prefix ''processed/'' (object_key processed_record)
   \<and> lambda_handler example_env [processed_record, vacation_record] example_world
       = lambda_handler example_env [vacation_record] example_world
   \<and> lambda_handler example_env [processed_record] example_world = (Inr ok_response, example_world)"
proof -
  have p: "prefix ''processed/'' (object_key processed_record)"
    unfolding processed_record_def s3_record.simps by (rule example_keys(1))
  note t = processed_prefix_is_skipped[OF p, of example_env "[]" "[vacation_record]" example_world,
      unfolded append_Nil]
  show ?thesis by (rule conjI[OF p t])
qed

text \<open>
  Claim C9: the test is a substring test. A record whose key contains \<open>processed/\<close>
  anywhere, such as \<open>photos/processed/pic.png\<close>, is skipped in the same way.
\<close>

theorem processed_substring_is_skipped:
  assumes "sublist ''processed/'' (object_key r)"
  shows "lambda_handler env (pre @ r # post) w = lambda_handler env (pre @ post) w
       \<and> lambda_handler env [r] w = (Inr ok_response, w)"
proof -
  have "records_loop env (pre @ r # post) w = records_loop env (pre @ post) w"
    using assms by (rule records_loop_skip)
  moreover have "records_loop env [r] w = (Inr (), w)"
    using records_loop_skip[OF assms, of env "[]" "[]" w] by simp
  ultimately show ?thesis by (simp add: lambda_handler_def)
qed

text \<open>The record with the key \<open>photos/processed/pic.png\<close>, which does not start with \<open>processed/\<close>.\<close>

theorem processed_substring_is_skipped_witness:
  "sublist ''processed/'' (object_key nested_record)
   \<and> \<not> prefix ''processed/'' (object_key nested_record)
   \<and> lambda_handler example_env [nested_record, vacation_record] example_world
       = lambda_handler example_env [vacation_record] example_world
   \<and> lambda_handler example_env [nested_record] example_world = (Inr ok_response, example_world)"
proof -
  have p: "sublist ''processed/'' (object_key nested_record)"
    unfolding nested_record_def s3_record.simps by (rule example_keys(2))
  have n: "\<not> prefix ''processed/'' (object_key nested_record)"
    unfolding nested_record_def s3_record.simps by (rule example_keys(3))
  note t = processed_substring_is_skipped[OF p, of example_env "[]" "[vacation_record]" example_world,
      unfolded append_Nil]
  show ?thesis by (rule conjI[OF p conjI[OF n t]])
qed

subsection \<open>Failures\<close>

text \<open>
  Claim C7: (1) the outcome of the handler is the same whatever \<open>publish\<close> does, be it
  that the topic is unset or that the service refuses; (2) an event of one record whose
  fetch and variant generation succeed returns the success response; (3) when the
  fetch of a record fails, the handler raises the fetch error; (4) when the bytes of a
  record do not decode, the handler raises the decode error.
\<close>

theorem notification_failure_is_swallowed_fetch_and_decode_failures_propagate:
  "fst (lambda_handler (env\<lparr>publish_denied := pd, SNS_TOPIC_ARN := t\<rparr>) event w)
     = fst (lambda_handler env event w)
   \<and> (\<not> sublist ''processed/'' (object_key r)
        \<and> objects w (bucket_name r, object_key r) = Some obj
        \<and> fst (process_image env (body obj) (object_key r)
                 (w\<lparr>calls := calls w @ [GetObject (bucket_name r) (object_key r)]\<rparr>)) = Inr results
      \<longrightarrow> fst (lambda_handler env [r] w) = Inr ok_response)
   \<and> (records_loop env pre w = (Inr (), w_pre)
        \<and> \<not> sublist ''processed/'' (object_key r)
        \<and> objects w_pre (bucket_name r, object_key r) = None
      \<longrightarrow> fst (lambda_handler env (pre @ r # post) w) = Inl FetchError)
   \<and> (records_loop env pre w = (Inr (), w_pre)
        \<and> \<not> sublist ''processed/'' (object_key r)
        \<and> objects w_pre (bucket_name r, object_key r) = Some obj
        \<and> image_open env (body obj) = None
      \<longrightarrow> fst (lambda_handler env (pre @ r # post) w) = Inl DecodeError)"
proof (intro conjI impI)
  have "same_store w w" by (simp add: same_store_def)
  from records_loop_indep[OF this]
  show "fst (lambda_handler (env\<lparr>publish_denied := pd, SNS_TOPIC_ARN := t\<rparr>) event w)
     = fst (lambda_handler env event w)"
    by (simp add: lambda_handler_fst)
next
  assume a: "\<not> sublist ''processed/'' (object_key r)
        \<and> objects w (bucket_name r, object_key r) = Some obj
        \<and> fst (process_image env (body obj) (object_key r)
                 (w\<lparr>calls := calls w @ [GetObject (bucket_name r) (object_key r)]\<rparr>)) = Inr results"
  then show "fst (lambda_handler env [r] w) = Inr ok_response"
    by (auto simp: lambda_handler_fst get_object_def Let_def split: prod.splits sum.splits)
next
  assume a: "records_loop env pre w = (Inr (), w_pre)
        \<and> \<not> sublist ''processed/'' (object_key r)
        \<and> objects w_pre (bucket_name r, object_key r) = None"
  then show "fst (lambda_handler env (pre @ r # post) w) = Inl FetchError"
    by (simp add: lambda_handler_fst records_loop_append get_object_def Let_def)
next
  assume a: "records_loop env pre w = (Inr (), w_pre)
        \<and> \<not> sublist ''processed/'' (object_key r)
        \<and> objects w_pre (bucket_name r, object_key r) = Some obj
        \<and> image_open env (body obj) = None"
  then show "fst (lambda_handler env (pre @ r # post) w) = Inl DecodeError"
    by (simp add: lambda_handler_fst records_loop_append get_object_def process_image_def Let_def)
qed

text \<open>With no topic and a service that refuses every message the handler still succeeds; a missing object and an object that is not an image make it fail.\<close>

theorem notification_failure_witness:
  "fst (lambda_handler (example_env\<lparr>publish_denied := \<lambda>t s m. True, SNS_TOPIC_ARN := None\<rparr>)
          [vacation_record] example_world) = Inr ok_response
   \<and> fst (lambda_handler example_env [processed_record, missing_record, vacation_record] example_world)
       = Inl FetchError
   \<and> fst (lambda_handler example_env [processed_record, notes_record, vacation_record] example_world)
       = Inl DecodeError"
proof -
  let ?png = "\<lparr>body = [137, 80, 78, 71], content_type = ''image/png'', metadata = []\<rparr>"
  let ?txt = "\<lparr>body = [104, 105], content_type = ''text/plain'', metadata = []\<rparr>"
  note l = example_skip_first
  have v1: "\<not> sublist ''processed/'' (object_key vacation_record)"
    unfolding vacation_record_def s3_record.simps by (rule example_keys(4))
  have v2: "objects example_world (bucket_name vacation_record, object_key vacation_record) = Some ?png"
    unfolding vacation_record_def s3_record.simps by (rule example_objects(1))
  have v3: "fst (process_image example_env (body ?png) (object_key vacation_record)
                 (example_world\<lparr>calls := calls example_world
                     @ [GetObject (bucket_name vacation_record) (object_key vacation_record)]\<rparr>))
            = Inr vacation_results"
    unfolding vacation_record_def s3_record.simps s3_object.simps by (rule example_png_fst)
  have m1: "\<not> sublist ''processed/'' (object_key missing_record)"
    unfolding missing_record_def s3_record.simps by (rule example_keys(5))
  have m2: "objects example_world (bucket_name missing_record, object_key missing_record) = None"
    unfolding missing_record_def s3_record.simps by (rule example_objects(3))
  have d1: "\<not> sublist ''processed/'' (object_key notes_record)"
    unfolding notes_record_def s3_record.simps by (rule example_keys(6))
  have d2: "objects example_world (bucket_name notes_record, object_key notes_record) = Some ?txt"
    unfolding notes_record_def s3_record.simps by (rule example_objects(2))
  have d3: "image_open example_env (body ?txt) = None"
    unfolding s3_object.simps by (rule example_open(3))
  note t = notification_failure_is_swallowed_fetch_and_decode_failures_propagate
  have 1: "fst (lambda_handler (example_env\<lparr>publish_denied := \<lambda>t s m. True, SNS_TOPIC_ARN := None\<rparr>)
          [vacation_record] example_world) = Inr ok_response"
    using t[where env = example_env and pd = "\<lambda>t s m. True" and t = None and event = "[vacation_record]"
           and w = example_world and r = vacation_record and obj = ?png and results = vacation_results]
       v1 v2 v3
    by (simp only: simp_thms)
  have 2: "fst (lambda_handler example_env [processed_record, missing_record, vacation_record] example_world)
       = Inl FetchError"
    using t[where env = example_env and w = example_world and pre = "[processed_record]"
           and w_pre = example_world and r = missing_record and post = "[vacation_record]"] l m1 m2
    by (simp only: simp_thms append.simps)
  have 3: "fst (lambda_handler example_env [processed_record, notes_record, vacation_record] example_world)
       = Inl DecodeError"
    using t[where env = example_env and w = example_world and pre = "[processed_record]"
           and w_pre = example_world and r = notes_record and obj = ?txt and post = "[vacation_record]"]
      l d1 d2 d3
    by (simp only: simp_thms append.simps)
  from 1 2 3 show ?thesis by (intro conjI)
qed

text \<open>
  Claim C8: when the records before \<open>r\<close> were handled without error and the object of
  \<open>r\<close> is missing, the handler ends with the fetch error, and the only call it made
  after those records is the one failed \<open>get_object\<close>: the records after \<open>r\<close> are not
  fetched, processed or notified, and nothing is retried.
\<close>

theorem fetch_failure_aborts_invocation:
  assumes "records_loop env pre w = (Inr (), w1)"
    and "\<not> sublist ''processed/'' (object_key r)"
    and "objects w1 (bucket_name r, object_key r) = None"
  shows "lambda_handler env (pre @ r # post) w
         = (Inl FetchError, w1\<lparr>calls := calls w1 @ [GetObject (bucket_name r) (object_key r)]\<rparr>)"
  using assms by (simp add: lambda_handler_def records_loop_append get_object_def Let_def)

text \<open>An event of a skipped record, a record whose object is missing, and a good record: one failed fetch and nothing else.\<close>

theorem fetch_failure_aborts_invocation_witness:
  "lambda_handler example_env [processed_record, missing_record, vacation_record] example_world
     = (Inl FetchError,
        example_world\<lparr>calls := calls example_world @ [GetObject ''uploads'' ''missing.png'']\<rparr>)"
proof -
  have s: "\<not> sublist ''processed/'' (object_key missing_record)"
    unfolding missing_record_def s3_record.simps by (rule example_keys(5))
  have o: "objects example_world (bucket_name missing_record, object_key missing_record) = None"
    unfolding missing_record_def s3_record.simps by (rule example_objects(3))
  from fetch_failure_aborts_invocation[OF example_skip_first s o, of "[vacation_record]"]
  show ?thesis by (simp add: missing_record_def)
qed

end
